theory Spec2Isabelle
  imports Complex_Main
begin

section \<open>Dense matrices\<close>

text \<open>
  The arrays of \<^verbatim>\<open>matrix_utils.py\<close> and \<^verbatim>\<open>dagsep.py\<close> are two-dimensional numpy arrays.
  An array is a list of rows; the entries are exact rationals, which agree with numpy's
  float64 arithmetic on the integer-valued entries (0/1 adjacency, path counts, path
  lengths) as long as these stay below \<open>2^53\<close>. Rounding, infinities and NaN are not part of
  the model. \<open>A.shape[0]\<close> is the number of rows.

  The matrix product, the transpose and the elementwise operations are written for the
  square arrays the functions are documented for, and the theorems that depend on the
  shape carry the squareness of their inputs as a hypothesis. What numpy does with arrays
  of other shapes inside \<open>np.dot\<close> is outside these definitions. \<open>causet_adj_matrix\<close> indexes
  its arguments entry by entry, so its reads are modelled with numpy's bounds check.
\<close>

type_synonym matrix = "rat list list"

datatype error = AssertionError | IndexError | ValueError

definition square :: "nat \<Rightarrow> matrix \<Rightarrow> bool" where
  "square n A \<longleftrightarrow> length A = n \<and> (\<forall>row \<in> set A. length row = n)"

definition zero_one :: "matrix \<Rightarrow> bool" where
  "zero_one A \<longleftrightarrow> (\<forall>row \<in> set A. \<forall>x \<in> set row. x = 0 \<or> x = 1)"

text \<open>\<open>np.zeros((N, N))\<close>\<close>

definition zeros :: "nat \<Rightarrow> matrix" where
  "zeros n = replicate n (replicate n 0)"

text \<open>\<open>np.dot(A, B)\<close> on \<open>N \<times> N\<close> arrays.\<close>

definition dot :: "matrix \<Rightarrow> matrix \<Rightarrow> matrix" where
  "dot A B = map (\<lambda>row. map (\<lambda>j. sum_list (map (\<lambda>k. row ! k * B ! k ! j) [0..<length B]))
                                [0..<length B]) A"

text \<open>
  Elementwise \<open>A + B\<close>, \<open>A - B\<close>, \<open>A * B\<close>, \<open>np.maximum.reduce((A, B))\<close> on two arrays of
  the same shape.
\<close>

definition elementwise :: "(rat \<Rightarrow> rat \<Rightarrow> rat) \<Rightarrow> matrix \<Rightarrow> matrix \<Rightarrow> matrix" where
  "elementwise f A B = map2 (map2 f) A B"

text \<open>\<open>LP.transpose()\<close> of an \<open>N \<times> N\<close> array.\<close>

definition mtranspose :: "matrix \<Rightarrow> matrix" where
  "mtranspose A = map (\<lambda>i. map (\<lambda>j. A ! j ! i) [0..<length A]) [0..<length A]"

text \<open>\<open>np.sum(B)\<close>\<close>

definition msum :: "matrix \<Rightarrow> rat" where
  "msum B = sum_list (map sum_list B)"

text \<open>\<open>np.max(LP)\<close>: numpy raises ValueError on an array without entries.\<close>

definition np_max :: "matrix \<Rightarrow> error + rat" where
  "np_max LP = (case concat LP of [] \<Rightarrow> Inl ValueError | x # xs \<Rightarrow> Inr (fold max xs x))"

text \<open>\<open>M[i,j] = v\<close> (in place in the source; the updated array is returned here).\<close>

definition set_entry :: "matrix \<Rightarrow> nat \<Rightarrow> nat \<Rightarrow> rat \<Rightarrow> matrix" where
  "set_entry M i j v = M[i := (M ! i)[j := v]]"

text \<open>\<open>M[i,j]\<close> with numpy's bounds check.\<close>

definition get_entry :: "matrix \<Rightarrow> nat \<Rightarrow> nat \<Rightarrow> error + rat" where
  "get_entry M i j =
     (if i < length M \<and> j < length (M ! i) then Inr (M ! i ! j) else Inl IndexError)"

text \<open>\<open>LP[:,i]\<close>\<close>

definition col :: "matrix \<Rightarrow> nat \<Rightarrow> rat list" where
  "col LP i = map (\<lambda>row. row ! i) LP"

text \<open>\<open>np.flatnonzero(v)\<close>, \<open>np.where(v == 1)[0]\<close> and \<open>np.intersect1d(a, b)\<close>.\<close>

definition flatnonzero :: "rat list \<Rightarrow> nat list" where
  "flatnonzero v = filter (\<lambda>r. v ! r \<noteq> 0) [0..<length v]"

definition where_one :: "rat list \<Rightarrow> nat list" where
  "where_one v = filter (\<lambda>r. v ! r = 1) [0..<length v]"

definition intersect1d :: "nat list \<Rightarrow> nat list \<Rightarrow> nat list" where
  "intersect1d a b = sort (remdups (filter (\<lambda>x. x \<in> set b) a))"

section \<open>matrix\_utils.py: adjacency matrix operations\<close>

text \<open>
  \<open>causet_adj_matrix(S, R)\<close>: \<open>N = S.shape[0]\<close>; for every \<open>i, j < N\<close> the entry is set to 1
  if \<open>R[i,0] > R[j,0]\<close> and \<open>S[i,j] < 0\<close>. \<open>S[i,j]\<close> is read only after the time test
  succeeded. A read outside the array raises IndexError.
\<close>

definition causet_entry :: "matrix \<Rightarrow> matrix \<Rightarrow> nat \<Rightarrow> nat \<Rightarrow> error + rat" where
  "causet_entry S R i j =
     (case get_entry R i 0 of Inl e \<Rightarrow> Inl e | Inr ti \<Rightarrow>
       (case get_entry R j 0 of Inl e \<Rightarrow> Inl e | Inr tj \<Rightarrow>
          if ti > tj then
            (case get_entry S i j of Inl e \<Rightarrow> Inl e | Inr s \<Rightarrow>
               if s < 0 then Inr 1 else Inr 0)
          else Inr 0))"

fun causet_row :: "matrix \<Rightarrow> matrix \<Rightarrow> nat \<Rightarrow> nat list \<Rightarrow> error + rat list" where
  "causet_row S R i [] = Inr []"
| "causet_row S R i (j # js) =
     (case causet_entry S R i j of Inl e \<Rightarrow> Inl e | Inr x \<Rightarrow>
       (case causet_row S R i js of Inl e \<Rightarrow> Inl e | Inr xs \<Rightarrow> Inr (x # xs)))"

fun causet_rows :: "matrix \<Rightarrow> matrix \<Rightarrow> nat \<Rightarrow> nat list \<Rightarrow> error + matrix" where
  "causet_rows S R N [] = Inr []"
| "causet_rows S R N (i # is) =
     (case causet_row S R i [0..<N] of Inl e \<Rightarrow> Inl e | Inr row \<Rightarrow>
       (case causet_rows S R N is of Inl e \<Rightarrow> Inl e | Inr rows \<Rightarrow> Inr (row # rows)))"

definition causet_adj_matrix :: "matrix \<Rightarrow> matrix \<Rightarrow> error + matrix" where
  "causet_adj_matrix S R = (let N = length S in causet_rows S R N [0..<N])"

text \<open>
  \<open>transitive_completion(A_)\<close>. One pass of the loop body computes
  \<open>A = np.dot(A, A_0); A += A_0; A[A>1.] = 1.\<close>; the comparison with \<open>A_old\<close> comes next,
  then the assertion \<open>i < N\<close>, then the increment. The loop is left when the comparison
  found no change.
\<close>

definition tc_step :: "matrix \<Rightarrow> matrix \<Rightarrow> matrix" where
  "tc_step A_0 A = map (map (\<lambda>x. if x > 1 then 1 else x)) (elementwise (+) (dot A A_0) A_0)"

function tc_loop :: "matrix \<Rightarrow> nat \<Rightarrow> matrix \<Rightarrow> nat \<Rightarrow> error + matrix" where
  "tc_loop A_0 N A_old i =
     (let A = tc_step A_0 A_old;
          A_diff = (A_old \<noteq> A)
      in if \<not> i < N then Inl AssertionError
         else if A_diff then tc_loop A_0 N A (i + 1)
         else Inr A)"
  by pat_completeness auto
termination
  by (relation "measure (\<lambda>(A_0, N, A, i). N - i)") auto

declare tc_loop.simps [simp del]

definition transitive_completion :: "matrix \<Rightarrow> error + matrix" where
  "transitive_completion A_in = tc_loop A_in (length A_in) A_in 0"

text \<open>
  \<open>transitive_reduction(A_, LP=None)\<close>: \<open>max_path\<close> is \<open>LP\<close> if that is given and nonzero,
  else \<open>N\<close>; the body \<open>A = A_0 - np.dot(A, A_0); A[A<1] = 0; A[A>1] = 1\<close> runs while
  \<open>i < max_path\<close>.
\<close>

definition tr_step :: "matrix \<Rightarrow> matrix \<Rightarrow> matrix" where
  "tr_step A_0 A =
     map (map (\<lambda>x. if x > 1 then 1 else x))
       (map (map (\<lambda>x. if x < 1 then 0 else x)) (elementwise (-) A_0 (dot A A_0)))"

function tr_loop :: "matrix \<Rightarrow> int \<Rightarrow> matrix \<Rightarrow> int \<Rightarrow> matrix" where
  "tr_loop A_0 max_path A i =
     (if i < max_path then tr_loop A_0 max_path (tr_step A_0 A) (i + 1) else A)"
  by pat_completeness auto
termination
  by (relation "measure (\<lambda>(A_0, max_path, A, i). nat (max_path - i))") auto

declare tr_loop.simps [simp del]

definition transitive_reduction :: "matrix \<Rightarrow> int option \<Rightarrow> matrix" where
  "transitive_reduction A_in LP =
     (let N = int (length A_in);
          max_path = (case LP of None \<Rightarrow> N | Some l \<Rightarrow> if l \<noteq> 0 then l else N)
      in tr_loop A_in max_path A_in 0)"

section \<open>Longest paths\<close>

text \<open>
  \<open>longest_path_matrix(A, dmax)\<close> of \<^verbatim>\<open>matrix_utils.py\<close>: a missing \<open>dmax\<close> is \<open>N\<close>. The loop
  runs while \<open>np.sum(B) > 0\<close> and returns from inside when the incremented counter equals
  \<open>dmax\<close>. Nothing bounds the loop otherwise, so not returning is the value \<open>None\<close>.
\<close>

partial_function (option) lpm_loop ::
  "matrix \<Rightarrow> rat \<Rightarrow> nat \<Rightarrow> matrix \<Rightarrow> matrix \<Rightarrow> matrix option" where
  "lpm_loop A dmax i B LP =
     (if msum B > 0 then
        (let path_exist = map (map sgn) B;
             path_length = map (map (\<lambda>x. of_nat i * x)) path_exist;
             LP' = elementwise max LP path_length;
             B' = dot B A;
             i' = i + 1
         in if of_nat i' = dmax then Some LP' else lpm_loop A dmax i' B' LP')
      else Some LP)"

definition longest_path_matrix :: "matrix \<Rightarrow> rat option \<Rightarrow> matrix option" where
  "longest_path_matrix A dmax =
     (let N = length A;
          dmax' = (case dmax of None \<Rightarrow> of_nat N | Some d \<Rightarrow> d)
      in lpm_loop A dmax' 1 A (zeros N))"

text \<open>
  \<open>longest_path_matrix(A, dmax)\<close> of \<^verbatim>\<open>dagsep.py\<close>: the cutoff test is
  \<open>dmax and (i == dmax)\<close>, so a missing or zero \<open>dmax\<close> never cuts.
\<close>

partial_function (option) dagsep_lpm_loop ::
  "matrix \<Rightarrow> rat option \<Rightarrow> nat \<Rightarrow> matrix \<Rightarrow> matrix \<Rightarrow> matrix option" where
  "dagsep_lpm_loop A dmax i B LP =
     (if msum B > 0 then
        (let path_exist = map (map sgn) B;
             path_length = map (map (\<lambda>x. of_nat i * x)) path_exist;
             LP' = elementwise max LP path_length;
             B' = dot B A;
             i' = i + 1
         in if (case dmax of None \<Rightarrow> False | Some d \<Rightarrow> d \<noteq> 0 \<and> of_nat i' = d)
            then Some LP' else dagsep_lpm_loop A dmax i' B' LP')
      else Some LP)"

definition dagsep_longest_path_matrix :: "matrix \<Rightarrow> rat option \<Rightarrow> matrix option" where
  "dagsep_longest_path_matrix A dmax = dagsep_lpm_loop A dmax 1 A (zeros (length A))"

section \<open>Spacelike separations\<close>

text \<open>
  Both estimators start from \<open>ds = LP + LP.transpose(); ds2 = ds * ds * -1\<close> and from
  \<open>dmax = np.max(LP)\<close> when no \<open>dmax\<close> is given.
\<close>

definition init_ds2 :: "matrix \<Rightarrow> matrix" where
  "init_ds2 LP =
     (let ds = elementwise (+) LP (mtranspose LP)
      in map (map (\<lambda>x. x * - 1)) (elementwise (*) ds ds))"

definition default_dmax :: "matrix \<Rightarrow> rat option \<Rightarrow> error + rat" where
  "default_dmax LP dmax = (case dmax of None \<Rightarrow> np_max LP | Some d \<Rightarrow> Inr d)"

text \<open>
  The inner loop \<open>for z in z_list: w_z = LP[w, z]; if w_z > 0: sp_dist = min(sp_dist, w_z)\<close>.
\<close>

definition min_bridge :: "matrix \<Rightarrow> nat list \<Rightarrow> nat \<Rightarrow> rat \<Rightarrow> rat" where
  "min_bridge LP z_list w sp_dist =
     fold (\<lambda>z sp. let w_z = LP ! w ! z in if w_z > 0 then min sp w_z else sp) z_list sp_dist"

definition naive_sp_dist :: "matrix \<Rightarrow> rat \<Rightarrow> nat \<Rightarrow> nat \<Rightarrow> rat" where
  "naive_sp_dist LP dmax i j =
     (let i_past = flatnonzero (col LP i);
          j_past = flatnonzero (col LP j);
          w_list = intersect1d i_past j_past;
          i_future = flatnonzero (LP ! i);
          j_future = flatnonzero (LP ! j);
          z_list = intersect1d i_future j_future
      in if length z_list > 0 \<and> length w_list > 0
         then fold (\<lambda>w sp. min_bridge LP z_list w sp) w_list dmax
         else dmax)"

text \<open>The body run for one pair \<open>(i, j)\<close>: it tests \<open>ds2[i,j] == 0\<close> and writes both mirrors.\<close>

definition naive_body :: "matrix \<Rightarrow> rat \<Rightarrow> nat \<Rightarrow> nat \<Rightarrow> matrix \<Rightarrow> matrix" where
  "naive_body LP dmax i j ds2 =
     (if ds2 ! i ! j = 0 then
        (let sp_dist = naive_sp_dist LP dmax i j
         in set_entry (set_entry ds2 i j (sp_dist * sp_dist)) j i (sp_dist * sp_dist))
      else ds2)"

text \<open>
  \<open>naive_spacelike_matrix(LP, dmax, k)\<close> of \<^verbatim>\<open>matrix_utils.py\<close>: the inner loop is
  \<open>for j in range(max_j)\<close> with \<open>max_j = i\<close>, or \<open>np.min([i, k])\<close> when \<open>k\<close> is given and
  nonzero.
\<close>

definition naive_spacelike_matrix ::
  "matrix \<Rightarrow> rat option \<Rightarrow> int option \<Rightarrow> error + matrix" where
  "naive_spacelike_matrix LP dmax k =
     (case default_dmax LP dmax of Inl e \<Rightarrow> Inl e | Inr d \<Rightarrow>
        (let ds2 = init_ds2 LP;
             N = length LP
         in Inr (fold (\<lambda>i ds2.
                   let max_j = (case k of None \<Rightarrow> int i
                                | Some k' \<Rightarrow> if k' \<noteq> 0 then min (int i) k' else int i)
                   in fold (\<lambda>j ds2. naive_body LP d i j ds2) [0..<nat max_j] ds2)
                 [0..<N] ds2)))"

text \<open>
  \<open>naive_spacelike_matrix(LP, dmax)\<close> of \<^verbatim>\<open>dagsep.py\<close>: both loops run over \<open>range(N)\<close>
  and the body is guarded by \<open>i > j\<close>.
\<close>

definition dagsep_naive_spacelike_matrix :: "matrix \<Rightarrow> rat option \<Rightarrow> error + matrix" where
  "dagsep_naive_spacelike_matrix LP dmax =
     (case default_dmax LP dmax of Inl e \<Rightarrow> Inl e | Inr d \<Rightarrow>
        (let ds2 = init_ds2 LP;
             N = length LP
         in Inr (fold (\<lambda>i ds2.
                   fold (\<lambda>j ds2. if i > j then naive_body LP d i j ds2 else ds2) [0..<N] ds2)
                 [0..<N] ds2)))"

text \<open>
  \<open>twolink_spacelike_matrix(LP, dmax)\<close>: for every node \<open>w\<close> of \<open>two_link_future\<close> the
  minimum is taken over \<open>link_past\<close> starting from \<open>dmax\<close>; the sum \<open>c\<close> is divided by
  \<open>len(two_link_future)\<close>.
\<close>

definition twolink_sp_dist :: "matrix \<Rightarrow> rat \<Rightarrow> nat \<Rightarrow> nat \<Rightarrow> rat" where
  "twolink_sp_dist LP dmax i j =
     (let i2_future = where_one (col LP i);
          j2_future = where_one (col LP j);
          two_link_future = intersect1d i2_future j2_future;
          i_past = flatnonzero (col LP i);
          j_past = flatnonzero (col LP j);
          link_past = intersect1d i_past j_past
      in if length two_link_future > 0
         then (let c = fold (\<lambda>w c. c + min_bridge LP link_past w dmax) two_link_future 0
               in c / of_nat (length two_link_future))
         else dmax)"

definition twolink_body :: "matrix \<Rightarrow> rat \<Rightarrow> nat \<Rightarrow> nat \<Rightarrow> matrix \<Rightarrow> matrix" where
  "twolink_body LP dmax i j ds2 =
     (if ds2 ! i ! j = 0 then
        (let av_sp_dist = twolink_sp_dist LP dmax i j
         in set_entry (set_entry ds2 i j (av_sp_dist ^ 2)) j i (av_sp_dist ^ 2))
      else ds2)"

definition twolink_spacelike_matrix :: "matrix \<Rightarrow> rat option \<Rightarrow> error + matrix" where
  "twolink_spacelike_matrix LP dmax =
     (case default_dmax LP dmax of Inl e \<Rightarrow> Inl e | Inr d \<Rightarrow>
        (let ds2 = init_ds2 LP;
             N = length LP
         in Inr (fold (\<lambda>i ds2.
                   fold (\<lambda>j ds2. if i > j then twolink_body LP d i j ds2 else ds2) [0..<N] ds2)
                 [0..<N] ds2)))"

section \<open>Adjacency matrices as relations\<close>

text \<open>
  A zero-one matrix \<open>A\<close> is read as the relation \<open>rel_of A\<close>, which holds the pair \<open>(i, j)\<close>
  when \<open>A[i,j] = 1\<close> (an edge from \<open>j\<close> to \<open>i\<close>); \<open>mat_of n r\<close> is the \<open>n \<times> n\<close> zero-one
  matrix of the relation \<open>r\<close>. An adjacency matrix is acyclic when \<open>acyclic (rel_of A)\<close> and
  transitively closed when \<open>trans (rel_of A)\<close>. On relations, one pass of the closure loop is
  \<open>tc_rel\<close> and one pass of the reduction loop is \<open>tr_rel\<close>.
\<close>

definition rel_of :: "matrix \<Rightarrow> (nat \<times> nat) set" where
  "rel_of A = {(i, j). i < length A \<and> j < length A \<and> A ! i ! j = 1}"

definition mat_of :: "nat \<Rightarrow> (nat \<times> nat) set \<Rightarrow> matrix" where
  "mat_of n r = map (\<lambda>i. map (\<lambda>j. if (i, j) \<in> r then 1 else 0) [0..<n]) [0..<n]"

definition tc_rel :: "(nat \<times> nat) set \<Rightarrow> (nat \<times> nat) set \<Rightarrow> (nat \<times> nat) set" where
  "tc_rel r0 r = r O r0 \<union> r0"

definition tr_rel :: "(nat \<times> nat) set \<Rightarrow> (nat \<times> nat) set \<Rightarrow> (nat \<times> nat) set" where
  "tr_rel r0 r = r0 - r O r0"

section \<open>Path graphs\<close>

text \<open>
  A path graph on the nodes \<open>0, \<dots>, n - 1\<close> is given by the list \<open>p\<close> of its nodes in path
  order (a permutation of the nodes): its edges lead from \<open>p ! b\<close> to \<open>p ! (b + 1)\<close>, so the only
  directed path from \<open>p ! b\<close> to \<open>p ! a\<close> has \<open>a - b\<close> edges when \<open>b < a\<close>, and there is none
  otherwise. \<open>path_rel p m\<close> holds the pairs of nodes that are \<open>m\<close> steps apart.
  \<open>supports n B r\<close> says that the path-count matrix \<open>B\<close> is positive exactly on \<open>r\<close>, and
  \<open>lengths_upto p m LP\<close> that \<open>LP\<close> holds the true lengths up to \<open>m\<close> and zero elsewhere.
\<close>

definition path_rel :: "nat list \<Rightarrow> nat \<Rightarrow> (nat \<times> nat) set" where
  "path_rel p m = {(p ! (b + m), p ! b) | b. b + m < length p}"

definition path_graph :: "nat list \<Rightarrow> matrix" where
  "path_graph p = mat_of (length p) (path_rel p 1)"

definition supports :: "nat \<Rightarrow> matrix \<Rightarrow> (nat \<times> nat) set \<Rightarrow> bool" where
  "supports n B r \<longleftrightarrow>
     square n B \<and>
     (\<forall>i<n. \<forall>j<n. ((i, j) \<in> r \<longrightarrow> 1 \<le> B ! i ! j) \<and> ((i, j) \<notin> r \<longrightarrow> B ! i ! j = 0))"

definition lengths_upto :: "nat list \<Rightarrow> nat \<Rightarrow> matrix \<Rightarrow> bool" where
  "lengths_upto p m LP \<longleftrightarrow>
     square (length p) LP \<and>
     (\<forall>a<length p. \<forall>b<length p.
        LP ! (p ! a) ! (p ! b) = (if b < a \<and> a - b \<le> m then of_nat (a - b) else 0))"

section \<open>Longest paths of the two-node graph\<close>

lemma upt_two: "[0..<2] = [0, Suc 0]"
  by (simp add: upt_rec)

lemma lpm_two_nodes: "longest_path_matrix [[0, 0], [1, 0]] None = Some [[0, 0], [1, 0]]"
  unfolding longest_path_matrix_def
  apply (subst lpm_loop.simps)
  apply (simp add: msum_def dot_def elementwise_def zeros_def upt_two eval_nat_numeral)
  done

lemma dagsep_lpm_two_nodes:
  "dagsep_longest_path_matrix [[0, 0], [1, 0]] None = Some [[0, 0], [1, 0]]"
  unfolding dagsep_longest_path_matrix_def
  apply (subst dagsep_lpm_loop.simps)
  apply (simp add: msum_def dot_def elementwise_def zeros_def upt_two eval_nat_numeral)
  apply (subst dagsep_lpm_loop.simps)
  apply (simp add: msum_def dot_def elementwise_def zeros_def upt_two eval_nat_numeral)
  done

text \<open>
  C1 (as amended). For \<open>A = [[0,0],[1,0]]\<close> both versions of \<open>longest_path_matrix\<close> return
  \<open>[[0,0],[1,0]]\<close>: the entry \<open>LP[1,0]\<close> is 1 and \<open>LP[0,0]\<close>, \<open>LP[0,1]\<close>, \<open>LP[1,1]\<close> are 0.
\<close>

theorem longest_path_two_nodes:
  "longest_path_matrix [[0, 0], [1, 0]] None = Some [[0, 0], [1, 0]] \<and>
   dagsep_longest_path_matrix [[0, 0], [1, 0]] None = Some [[0, 0], [1, 0]]"
  by (simp add: lpm_two_nodes dagsep_lpm_two_nodes)

text \<open>
  C1 (as stated) fails: in the matrix returned for \<open>A = [[0,0],[1,0]]\<close> the entry
  \<open>LP[0,1]\<close> is not 1 and the entry \<open>LP[1,0]\<close> is not 0.
\<close>

theorem longest_path_two_nodes_counterexample:
  "longest_path_matrix [[0, 0], [1, 0]] None = Some [[0, 0], [1, 0]] \<and>
   ([[0, 0], [1, 0]] :: matrix) ! 0 ! 1 \<noteq> 1 \<and> ([[0, 0], [1, 0]] :: matrix) ! 1 ! 0 \<noteq> 0"
  by (simp add: lpm_two_nodes)

section \<open>The causal adjacency matrix\<close>

lemma causet_row_Inr:
  "causet_row S R i js = Inr xs \<Longrightarrow>
   length xs = length js \<and> (\<forall>n < length js. causet_entry S R i (js ! n) = Inr (xs ! n))"
proof (induction js arbitrary: xs)
  case Nil
  then show ?case by simp
next
  case (Cons j js)
  then show ?case
    by (auto split: sum.splits simp: nth_Cons split: nat.splits)
qed

lemma causet_rows_Inr:
  "causet_rows S R N is = Inr A \<Longrightarrow>
   length A = length is \<and> (\<forall>n < length is. causet_row S R (is ! n) [0..<N] = Inr (A ! n))"
proof (induction "is" arbitrary: A)
  case Nil
  then show ?case by simp
next
  case (Cons i "is")
  then show ?case
    by (auto split: sum.splits simp: nth_Cons split: nat.splits)
qed

lemma causet_adj_matrix_length:
  "causet_adj_matrix S R = Inr A \<Longrightarrow> length A = length S"
  using causet_rows_Inr [of S R "length S" "[0..<length S]" A]
  by (auto simp: causet_adj_matrix_def Let_def)

lemma causet_adj_matrix_entry:
  assumes "causet_adj_matrix S R = Inr A" "i < length S" "j < length S"
  shows "length (A ! i) = length S \<and> causet_entry S R i j = Inr (A ! i ! j)"
proof -
  from assms(1) have rows: "length A = length S"
    "\<forall>n < length S. causet_row S R n [0..<length S] = Inr (A ! n)"
    using causet_rows_Inr [of S R "length S" "[0..<length S]" A]
    by (auto simp: causet_adj_matrix_def Let_def)
  from rows(2) assms(2) have "causet_row S R i [0..<length S] = Inr (A ! i)" by simp
  from causet_row_Inr [OF this] assms(3) rows(1) show ?thesis by auto
qed

lemma causet_entry_cases:
  "causet_entry S R i j = Inr x \<Longrightarrow> (x = 1 \<and> R ! j ! 0 < R ! i ! 0) \<or> x = 0"
  by (auto simp: causet_entry_def get_entry_def split: sum.splits if_splits)

lemma causet_row_total:
  "\<forall>j \<in> set js. \<exists>x. causet_entry S R i j = Inr x \<Longrightarrow> \<exists>xs. causet_row S R i js = Inr xs"
  by (induction js) (auto split: sum.splits)

lemma causet_rows_total:
  "\<forall>i \<in> set is. \<exists>xs. causet_row S R i [0..<N] = Inr xs \<Longrightarrow>
   \<exists>A. causet_rows S R N is = Inr A"
  by (induction "is") (auto split: sum.splits)

lemma causet_entry_total:
  "i < length R \<Longrightarrow> j < length R \<Longrightarrow> R ! i \<noteq> [] \<Longrightarrow> R ! j \<noteq> [] \<Longrightarrow>
   i < length S \<Longrightarrow> j < length (S ! i) \<Longrightarrow> \<exists>x. causet_entry S R i j = Inr x"
  by (auto simp: causet_entry_def get_entry_def split: sum.splits if_splits)

lemma causet_nonsquare_eval:
  "causet_adj_matrix [[0, 0, 0], [- 1, 0, 0]] [[0], [1]] = Inr [[0, 0], [1, 0]]"
  by (simp add: causet_adj_matrix_def upt_two causet_entry_def get_entry_def)

text \<open>
  C10. Whatever \<open>S\<close> and \<open>R\<close> are, the matrix \<open>A\<close> that \<open>causet_adj_matrix(S, R)\<close> returns
  has \<open>A[i,i] = 0\<close> for every \<open>i\<close> and no pair \<open>(i, j)\<close> with \<open>A[i,j] = 1\<close> and
  \<open>A[j,i] = 1\<close>: an entry is 1 only under the strict test \<open>R[i,0] > R[j,0]\<close>.
\<close>

theorem causet_adj_matrix_strict_antisymmetric:
  assumes "causet_adj_matrix S R = Inr A" "i < length S" "j < length S"
  shows "A ! i ! i = 0 \<and> \<not> (A ! i ! j = 1 \<and> A ! j ! i = 1)"
proof -
  have ii: "causet_entry S R i i = Inr (A ! i ! i)"
    and ij: "causet_entry S R i j = Inr (A ! i ! j)"
    and ji: "causet_entry S R j i = Inr (A ! j ! i)"
    using causet_adj_matrix_entry [OF assms(1)] assms(2,3) by auto
  from causet_entry_cases [OF ii] have "A ! i ! i = 0" by auto
  moreover from causet_entry_cases [OF ij] causet_entry_cases [OF ji]
  have "\<not> (A ! i ! j = 1 \<and> A ! j ! i = 1)" by auto
  ultimately show ?thesis by simp
qed

theorem causet_adj_matrix_strict_antisymmetric_witness:
  "causet_adj_matrix [[0, - 1], [- 1, 0]] [[0], [1]] = Inr [[0, 0], [1, 0]] \<and>
   ([[0, 0], [1, 0]] :: matrix) ! 1 ! 1 = 0 \<and>
   \<not> (([[0, 0], [1, 0]] :: matrix) ! 1 ! 0 = 1 \<and> ([[0, 0], [1, 0]] :: matrix) ! 0 ! 1 = 1)"
proof -
  have ev: "causet_adj_matrix [[0, - 1], [- 1, 0]] [[0], [1]] = Inr [[0, 0], [1, 0]]"
    by (simp add: causet_adj_matrix_def upt_two causet_entry_def get_entry_def)
  from causet_adj_matrix_strict_antisymmetric [OF ev, of 1 0] ev show ?thesis by simp
qed

text \<open>
  C9 (as amended). \<open>causet_adj_matrix\<close> validates no shape. With \<open>N\<close> the number of rows
  of \<open>S\<close>, it reads \<open>S[i,j]\<close> and \<open>R[i,0]\<close> for \<open>i, j < N\<close> only: whenever every row of \<open>S\<close>
  has at least \<open>N\<close> entries and \<open>R\<close> has at least \<open>N\<close> non-empty rows, it returns an
  \<open>N \<times> N\<close> matrix of zeros and ones, whether or not \<open>S\<close> is square and whether or not the
  shape of \<open>R\<close> matches.
\<close>

theorem causet_adj_matrix_accepts_any_shape:
  assumes "length S = N" "\<forall>row \<in> set S. N \<le> length row"
      and "N \<le> length R" "\<forall>row \<in> set R. row \<noteq> []"
  shows "\<exists>A. causet_adj_matrix S R = Inr A \<and> square N A \<and> zero_one A"
proof -
  have ent: "\<exists>x. causet_entry S R i j = Inr x" if "i < N" "j < N" for i j
  proof -
    from that assms have "S ! i \<in> set S" "R ! i \<in> set R" "R ! j \<in> set R" by auto
    with assms have "N \<le> length (S ! i)" "R ! i \<noteq> []" "R ! j \<noteq> []" by blast+
    then have ne: "R ! i \<noteq> []" "R ! j \<noteq> []" and "j < length (S ! i)"
      using that by simp_all
    moreover from that assms have "i < length R" "j < length R" "i < length S" by simp_all
    ultimately show ?thesis using causet_entry_total [of i R j S] by blast
  qed
  have "\<exists>xs. causet_row S R i [0..<N] = Inr xs" if "i < N" for i
    using that ent by (intro causet_row_total) auto
  then have "\<exists>A. causet_rows S R N [0..<N] = Inr A"
    by (intro causet_rows_total) auto
  then obtain A where A: "causet_adj_matrix S R = Inr A"
    by (auto simp: causet_adj_matrix_def assms(1))
  have e: "length A = N"
    "\<And>i j. i < N \<Longrightarrow> j < N \<Longrightarrow>
       length (A ! i) = N \<and> causet_entry S R i j = Inr (A ! i ! j)"
    using causet_adj_matrix_entry [OF A] causet_adj_matrix_length [OF A] assms(1) by auto
  have sq: "square N A"
    unfolding square_def using e by (metis in_set_conv_nth)
  have "zero_one A"
    unfolding zero_one_def
  proof (intro ballI)
    fix row x assume "row \<in> set A" "x \<in> set row"
    then obtain i j where "i < N" "j < N" "x = A ! i ! j"
      using sq unfolding square_def by (metis in_set_conv_nth)
    with e(2) [of i j] causet_entry_cases [of S R i j x] show "x = 0 \<or> x = 1" by auto
  qed
  with A sq show ?thesis by blast
qed

theorem causet_adj_matrix_accepts_any_shape_witness:
  "\<exists>A. causet_adj_matrix [[0, 0, 0], [- 1, 0, 0]] [[0], [1], [2]] = Inr A \<and>
       square 2 A \<and> zero_one A"
  using causet_adj_matrix_accepts_any_shape [of "[[0, 0, 0], [- 1, 0, 0]]" 2 "[[0], [1], [2]]"]
  by simp

text \<open>
  C9 (as stated) fails: a separation matrix \<open>S\<close> with two rows and three columns is not
  rejected; a \<open>2 \<times> 2\<close> result is returned.
\<close>

theorem causet_adj_matrix_nonsquare_counterexample:
  "\<not> square 2 [[0, 0, 0], [- 1, 0, 0]] \<and>
   causet_adj_matrix [[0, 0, 0], [- 1, 0, 0]] [[0], [1]] = Inr [[0, 0], [1, 0]]"
  by (simp add: causet_nonsquare_eval square_def)

section \<open>The landmark restriction of the naive estimator\<close>

lemma fold_guard_upt:
  assumes "i \<le> N"
  shows "fold (\<lambda>j s. if i > j then f j s else s) [0..<N] s = fold f [0..<i] (s::'a)"
proof -
  have split: "[0..<N] = [0..<i] @ [i..<N]"
    using assms by (metis le_add_diff_inverse upt_add_eq_append zero_le)
  have a: "fold (\<lambda>j s. if i > j then f j s else s) [0..<i] s = fold f [0..<i] s"
    by (rule fold_cong) auto
  have b: "fold (\<lambda>j s. if i > j then f j s else s) [i..<N] t = t" for t :: 'a
    by (rule fold_invariant [where Q = "\<lambda>x. i \<le> x"]) auto
  show ?thesis
    by (simp add: split a b)
qed

text \<open>
  The three naive estimators run the same loop: for every \<open>i < N\<close>, the pair body for
  \<open>j = 0, \<dots>, i - 1\<close>.
\<close>

lemma naive_landmark_loops:
  assumes "int (length LP) \<le> k"
  shows "naive_spacelike_matrix LP dmax (Some k) =
        (case default_dmax LP dmax of Inl e \<Rightarrow> Inl e | Inr d \<Rightarrow>
           Inr (fold (\<lambda>i ds2. fold (\<lambda>j ds2. naive_body LP d i j ds2) [0..<i] ds2)
                  [0..<length LP] (init_ds2 LP)))"
proof -
  have inner: "(\<lambda>i ds2. let max_j = (case Some k of None \<Rightarrow> int i
                                | Some k' \<Rightarrow> if k' \<noteq> 0 then min (int i) k' else int i)
                   in fold (\<lambda>j ds2. naive_body LP d i j ds2) [0..<nat max_j] ds2) i =
         (\<lambda>ds2. fold (\<lambda>j ds2. naive_body LP d i j ds2) [0..<i] ds2)"
    if "i \<in> set [0..<length LP]" for i d
    using that assms by (auto simp: Let_def min_def)
  show ?thesis
    unfolding naive_spacelike_matrix_def Let_def
    using inner by (auto split: sum.splits intro!: fold_cong simp: Let_def)
qed

lemma naive_none_loops:
  "naive_spacelike_matrix LP dmax None =
        (case default_dmax LP dmax of Inl e \<Rightarrow> Inl e | Inr d \<Rightarrow>
           Inr (fold (\<lambda>i ds2. fold (\<lambda>j ds2. naive_body LP d i j ds2) [0..<i] ds2)
                  [0..<length LP] (init_ds2 LP)))"
  unfolding naive_spacelike_matrix_def Let_def
  by (auto split: sum.splits)

lemma dagsep_naive_loops:
  "dagsep_naive_spacelike_matrix LP dmax =
        (case default_dmax LP dmax of Inl e \<Rightarrow> Inl e | Inr d \<Rightarrow>
           Inr (fold (\<lambda>i ds2. fold (\<lambda>j ds2. naive_body LP d i j ds2) [0..<i] ds2)
                  [0..<length LP] (init_ds2 LP)))"
proof -
  have inner: "(\<lambda>i ds2. fold (\<lambda>j ds2. if i > j then naive_body LP d i j ds2 else ds2)
                         [0..<length LP] ds2) i =
         (\<lambda>ds2. fold (\<lambda>j ds2. naive_body LP d i j ds2) [0..<i] ds2)"
    if "i \<in> set [0..<length LP]" for i d
    using that by (auto simp: fold_guard_upt)
  show ?thesis
    unfolding dagsep_naive_spacelike_matrix_def Let_def
    using inner by (auto split: sum.splits intro!: fold_cong)
qed

lemma twolink_loops:
  "twolink_spacelike_matrix LP dmax =
        (case default_dmax LP dmax of Inl e \<Rightarrow> Inl e | Inr d \<Rightarrow>
           Inr (fold (\<lambda>i ds2. fold (\<lambda>j ds2. twolink_body LP d i j ds2) [0..<i] ds2)
                  [0..<length LP] (init_ds2 LP)))"
proof -
  have inner: "(\<lambda>i ds2. fold (\<lambda>j ds2. if i > j then twolink_body LP d i j ds2 else ds2)
                         [0..<length LP] ds2) i =
         (\<lambda>ds2. fold (\<lambda>j ds2. twolink_body LP d i j ds2) [0..<i] ds2)"
    if "i \<in> set [0..<length LP]" for i d
    using that by (auto simp: fold_guard_upt)
  show ?thesis
    unfolding twolink_spacelike_matrix_def Let_def
    using inner by (auto split: sum.splits intro!: fold_cong)
qed

text \<open>
  C8. For a landmark count \<open>k\<close> with \<open>k \<ge> N\<close>, \<open>naive_spacelike_matrix(LP, dmax, k)\<close>
  returns what the call without \<open>k\<close> returns, and what the landmark-free
  \<open>naive_spacelike_matrix(LP, dmax)\<close> of \<^verbatim>\<open>dagsep.py\<close> returns.
\<close>

theorem naive_landmark_at_least_N:
  assumes "int (length LP) \<le> k"
  shows "naive_spacelike_matrix LP dmax (Some k) = naive_spacelike_matrix LP dmax None \<and>
         naive_spacelike_matrix LP dmax (Some k) = dagsep_naive_spacelike_matrix LP dmax"
  by (simp add: naive_landmark_loops [OF assms] naive_none_loops dagsep_naive_loops)

theorem naive_landmark_at_least_N_witness:
  "int (length ([[0, 0, 0], [1, 0, 0], [1, 0, 0]] :: matrix)) \<le> 3 \<and>
   naive_spacelike_matrix [[0, 0, 0], [1, 0, 0], [1, 0, 0]] None (Some 3) =
     naive_spacelike_matrix [[0, 0, 0], [1, 0, 0], [1, 0, 0]] None None \<and>
   naive_spacelike_matrix [[0, 0, 0], [1, 0, 0], [1, 0, 0]] None (Some 3) =
     dagsep_naive_spacelike_matrix [[0, 0, 0], [1, 0, 0], [1, 0, 0]] None"
proof -
  have h: "int (length ([[0, 0, 0], [1, 0, 0], [1, 0, 0]] :: matrix)) \<le> 3" by simp
  from naive_landmark_at_least_N [OF h, of None] h show ?thesis by blast
qed

section \<open>Entries of square matrices\<close>

lemma square_length: "square n A \<Longrightarrow> length A = n"
  by (simp add: square_def)

lemma square_nth_length: "square n A \<Longrightarrow> i < n \<Longrightarrow> length (A ! i) = n"
  by (simp add: square_def)

lemma square_ext:
  assumes "square n A" "square n B" "\<And>i j. i < n \<Longrightarrow> j < n \<Longrightarrow> A ! i ! j = B ! i ! j"
  shows "A = B"
proof (rule nth_equalityI)
  show "length A = length B" using assms by (simp add: square_def)
next
  fix i assume "i < length A"
  then have i: "i < n" using assms(1) by (simp add: square_def)
  show "A ! i = B ! i"
    by (rule nth_equalityI) (use i assms in \<open>simp_all add: square_nth_length\<close>)
qed

lemma set_entry_square: "square n M \<Longrightarrow> square n (set_entry M i j v)"
proof (cases "i < length M")
  case True
  assume "square n M"
  with True show ?thesis
    unfolding square_def set_entry_def
    by (auto dest!: set_update_subset_insert [THEN subsetD])
next
  case False
  assume "square n M"
  with False show ?thesis
    by (simp add: set_entry_def list_update_beyond)
qed

lemma set_entry_nth:
  "square n M \<Longrightarrow> a < n \<Longrightarrow> b < n \<Longrightarrow>
   set_entry M i j v ! a ! b = (if a = i \<and> b = j then v else M ! a ! b)"
  by (cases "a = i") (auto simp: set_entry_def square_def nth_list_update)

lemma set_entry_twice_nth:
  assumes "square n M" "a < n" "b < n"
  shows "set_entry (set_entry M i j v) j i v ! a ! b =
         (if (a = i \<and> b = j) \<or> (a = j \<and> b = i) then v else M ! a ! b)"
proof -
  have 1: "set_entry (set_entry M i j v) j i v ! a ! b =
           (if a = j \<and> b = i then v else set_entry M i j v ! a ! b)"
    by (rule set_entry_nth [OF set_entry_square [OF assms(1)] assms(2,3)])
  have 2: "set_entry M i j v ! a ! b = (if a = i \<and> b = j then v else M ! a ! b)"
    by (rule set_entry_nth [OF assms])
  show ?thesis by (simp only: 1 2 split: if_splits) blast
qed

lemma pair_inner:
  assumes body: "\<And>j D. body j D =
            (if D ! i ! j = 0 then set_entry (set_entry D i j (v j)) j i (v j) else D)"
      and sq: "square N D0" and i: "i < N" and m: "m \<le> i"
  shows "square N (fold body [0..<m] D0) \<and>
         (\<forall>a<N. \<forall>b<N. fold body [0..<m] D0 ! a ! b =
            (if a = i \<and> b < m \<and> D0 ! i ! b = 0 then v b
             else if b = i \<and> a < m \<and> D0 ! i ! a = 0 then v a
             else D0 ! a ! b))"
  using m
proof (induction m)
  case 0
  then show ?case using sq by simp
next
  case (Suc m)
  let ?R = "fold body [0..<m] D0"
  from Suc have IH: "square N ?R"
    "\<And>a b. a < N \<Longrightarrow> b < N \<Longrightarrow> ?R ! a ! b =
            (if a = i \<and> b < m \<and> D0 ! i ! b = 0 then v b
             else if b = i \<and> a < m \<and> D0 ! i ! a = 0 then v a
             else D0 ! a ! b)"
    by auto
  from Suc.prems i have mi: "m < i" "m < N" by auto
  have read: "?R ! i ! m = D0 ! i ! m"
    using IH(2) [of i m] mi i by simp
  have step: "fold body [0..<Suc m] D0 = body m ?R" by simp
  show ?case
  proof (cases "D0 ! i ! m = 0")
    case True
    then have eq: "fold body [0..<Suc m] D0 = set_entry (set_entry ?R i m (v m)) m i (v m)"
      by (simp add: body read)
    show ?thesis
      unfolding eq using IH mi i True
      by (auto simp: set_entry_twice_nth [of N] set_entry_square less_Suc_eq)
  next
    case False
    then have eq: "fold body [0..<Suc m] D0 = ?R"
      by (simp add: body read)
    show ?thesis
      unfolding eq using IH mi i False
      by (auto simp: less_Suc_eq)
  qed
qed

lemma pair_outer:
  assumes body: "\<And>i j D. body i j D =
            (if D ! i ! j = 0 then set_entry (set_entry D i j (v i j)) j i (v i j) else D)"
      and sq: "square N D0" and n: "n \<le> N"
  shows "square N (fold (\<lambda>i D. fold (\<lambda>j D. body i j D) [0..<i] D) [0..<n] D0) \<and>
         (\<forall>a<N. \<forall>b<N. fold (\<lambda>i D. fold (\<lambda>j D. body i j D) [0..<i] D) [0..<n] D0 ! a ! b =
            (if b < a \<and> a < n \<and> D0 ! a ! b = 0 then v a b
             else if a < b \<and> b < n \<and> D0 ! b ! a = 0 then v b a
             else D0 ! a ! b))"
  using n
proof (induction n)
  case 0
  then show ?case using sq by simp
next
  case (Suc n)
  let ?R = "fold (\<lambda>i D. fold (\<lambda>j D. body i j D) [0..<i] D) [0..<n] D0"
  from Suc have IH: "square N ?R"
    "\<And>a b. a < N \<Longrightarrow> b < N \<Longrightarrow> ?R ! a ! b =
            (if b < a \<and> a < n \<and> D0 ! a ! b = 0 then v a b
             else if a < b \<and> b < n \<and> D0 ! b ! a = 0 then v b a
             else D0 ! a ! b)"
    by auto
  from Suc.prems have nN: "n < N" by simp
  have step: "fold (\<lambda>i D. fold (\<lambda>j D. body i j D) [0..<i] D) [0..<Suc n] D0 =
              fold (\<lambda>j D. body n j D) [0..<n] ?R" by simp
  note inner = pair_inner [of "\<lambda>j D. body n j D" n "v n" N ?R n, OF body IH(1) nN le_refl]
  have row: "?R ! n ! b = D0 ! n ! b" if "b < N" for b
    using IH(2) [of n b] nN that by simp
  show ?case
    unfolding step using inner IH(2) nN
    by (auto simp: row less_Suc_eq)
qed

lemma elementwise_square:
  "square n A \<Longrightarrow> square n B \<Longrightarrow> square n (elementwise f A B)"
  unfolding square_def elementwise_def
  by (auto simp: set_zip)

lemma elementwise_nth:
  "square n A \<Longrightarrow> square n B \<Longrightarrow> i < n \<Longrightarrow> j < n \<Longrightarrow>
   elementwise f A B ! i ! j = f (A ! i ! j) (B ! i ! j)"
  unfolding square_def elementwise_def by simp

lemma map_map_square: "square n A \<Longrightarrow> square n (map (map f) A)"
  unfolding square_def by auto

lemma map_map_nth:
  "square n A \<Longrightarrow> i < n \<Longrightarrow> j < n \<Longrightarrow> map (map f) A ! i ! j = f (A ! i ! j)"
  unfolding square_def by simp

lemma mtranspose_square: "square n A \<Longrightarrow> square n (mtranspose A)"
  unfolding square_def mtranspose_def by auto

lemma mtranspose_nth:
  "square n A \<Longrightarrow> i < n \<Longrightarrow> j < n \<Longrightarrow> mtranspose A ! i ! j = A ! j ! i"
  unfolding square_def mtranspose_def by simp

lemma init_ds2_square: "square n LP \<Longrightarrow> square n (init_ds2 LP)"
  unfolding init_ds2_def Let_def
  by (intro map_map_square elementwise_square mtranspose_square)

lemma init_ds2_nth:
  assumes "square n LP" "i < n" "j < n"
  shows "init_ds2 LP ! i ! j = - ((LP ! i ! j + LP ! j ! i) * (LP ! i ! j + LP ! j ! i))"
proof -
  let ?ds = "elementwise (+) LP (mtranspose LP)"
  have sq: "square n ?ds"
    using assms(1) by (intro elementwise_square mtranspose_square)
  have ds: "?ds ! i ! j = LP ! i ! j + LP ! j ! i"
    using assms by (simp add: elementwise_nth [of n] mtranspose_square mtranspose_nth [of n])
  have "init_ds2 LP ! i ! j = (?ds ! i ! j * ?ds ! i ! j) * - 1"
    unfolding init_ds2_def Let_def
    using assms sq
    by (simp add: map_map_nth [of n] elementwise_square elementwise_nth [of n])
  then show ?thesis by (simp add: ds)
qed

lemma np_max_total:
  assumes "square n LP" "0 < n"
  shows "np_max LP = Inr (Max (set (concat LP)))"
proof -
  from assms obtain r rs where LP: "LP = r # rs" and "length r = n"
    unfolding square_def by (cases LP) auto
  with assms(2) obtain x xs where "r = x # xs" by (cases r) auto
  with LP have c: "concat LP = x # (xs @ concat rs)" by simp
  have "fold max (xs @ concat rs) x = Max (set (concat LP))"
    unfolding c by (rule Max.set_eq_fold [symmetric])
  then show ?thesis
    unfolding np_max_def by (simp only: c list.case)
qed

lemma default_dmax_total:
  assumes "square n LP" "0 < n"
  shows "default_dmax LP dmax =
         Inr (case dmax of None \<Rightarrow> Max (set (concat LP)) | Some d \<Rightarrow> d)"
  using np_max_total [OF assms] by (simp add: default_dmax_def split: option.splits)

lemma intersect1d_empty_iff: "intersect1d a b = [] \<longleftrightarrow> set a \<inter> set b = {}"
proof -
  have "intersect1d a b = [] \<longleftrightarrow> set (intersect1d a b) = {}" by simp
  also have "set (intersect1d a b) = set a \<inter> set b"
    unfolding intersect1d_def by auto
  finally show ?thesis .
qed

lemma intersect1d_empty_commute: "intersect1d a b = [] \<longleftrightarrow> intersect1d b a = []"
  by (auto simp: intersect1d_empty_iff)

lemma naive_body_form:
  "naive_body LP d i j D =
     (if D ! i ! j = 0
      then set_entry (set_entry D i j (naive_sp_dist LP d i j * naive_sp_dist LP d i j)) j i
             (naive_sp_dist LP d i j * naive_sp_dist LP d i j)
      else D)"
  by (simp add: naive_body_def Let_def)

lemma twolink_body_form:
  "twolink_body LP d i j D =
     (if D ! i ! j = 0
      then set_entry (set_entry D i j ((twolink_sp_dist LP d i j)\<^sup>2)) j i
             ((twolink_sp_dist LP d i j)\<^sup>2)
      else D)"
  by (simp add: twolink_body_def Let_def)

lemma naive_sp_dist_saturates:
  "intersect1d (flatnonzero (col LP i)) (flatnonzero (col LP j)) = [] \<or>
   intersect1d (flatnonzero (LP ! i)) (flatnonzero (LP ! j)) = [] \<Longrightarrow>
   naive_sp_dist LP d i j = d \<and> naive_sp_dist LP d j i = d"
  unfolding naive_sp_dist_def Let_def
  using intersect1d_empty_commute by auto

lemma twolink_sp_dist_saturates:
  "intersect1d (where_one (col LP i)) (where_one (col LP j)) = [] \<Longrightarrow>
   twolink_sp_dist LP d i j = d \<and> twolink_sp_dist LP d j i = d"
  unfolding twolink_sp_dist_def Let_def
  using intersect1d_empty_commute by auto

text \<open>The matrices the two estimators return, entry by entry.\<close>

lemma naive_loops_entries:
  fixes d :: rat
  assumes "square N LP"
  defines "R \<equiv> fold (\<lambda>i ds2. fold (\<lambda>j ds2. naive_body LP d i j ds2) [0..<i] ds2)
                  [0..<N] (init_ds2 LP)"
  shows "square N R"
    and "\<And>a b. a < N \<Longrightarrow> b < N \<Longrightarrow> R ! a ! b =
            (if b < a \<and> init_ds2 LP ! a ! b = 0 then naive_sp_dist LP d a b * naive_sp_dist LP d a b
             else if a < b \<and> init_ds2 LP ! b ! a = 0 then naive_sp_dist LP d b a * naive_sp_dist LP d b a
             else init_ds2 LP ! a ! b)"
  using pair_outer [of "naive_body LP d" "\<lambda>i j. naive_sp_dist LP d i j * naive_sp_dist LP d i j"
      N "init_ds2 LP" N, OF naive_body_form init_ds2_square [OF assms(1)] le_refl]
  unfolding R_def by auto

lemma twolink_loops_entries:
  fixes d :: rat
  assumes "square N LP"
  defines "R \<equiv> fold (\<lambda>i ds2. fold (\<lambda>j ds2. twolink_body LP d i j ds2) [0..<i] ds2)
                  [0..<N] (init_ds2 LP)"
  shows "square N R"
    and "\<And>a b. a < N \<Longrightarrow> b < N \<Longrightarrow> R ! a ! b =
            (if b < a \<and> init_ds2 LP ! a ! b = 0 then (twolink_sp_dist LP d a b)\<^sup>2
             else if a < b \<and> init_ds2 LP ! b ! a = 0 then (twolink_sp_dist LP d b a)\<^sup>2
             else init_ds2 LP ! a ! b)"
  using pair_outer [of "twolink_body LP d" "\<lambda>i j. (twolink_sp_dist LP d i j)\<^sup>2"
      N "init_ds2 LP" N, OF twolink_body_form init_ds2_square [OF assms(1)] le_refl]
  unfolding R_def by auto

section \<open>Symmetry and saturation of the separation matrices\<close>

lemma default_dmax_cases:
  assumes "square N LP" "0 < N \<or> dmax \<noteq> None"
  shows "\<exists>d. default_dmax LP dmax = Inr d"
proof (cases dmax)
  case None
  with assms default_dmax_total [of N LP dmax] show ?thesis by auto
next
  case (Some d)
  then show ?thesis by (simp add: default_dmax_def)
qed

lemma init_ds2_symmetric:
  "square N LP \<Longrightarrow> a < N \<Longrightarrow> b < N \<Longrightarrow> init_ds2 LP ! a ! b = init_ds2 LP ! b ! a"
  by (simp add: init_ds2_nth [of N] add.commute)

text \<open>
  C3. For a square longest-path matrix \<open>LP\<close> with zero diagonal (as every longest-path matrix
  of an acyclic adjacency matrix is), the matrix \<open>DS2\<close> returned by both versions of
  \<open>naive_spacelike_matrix(LP)\<close> and by \<open>twolink_spacelike_matrix(LP)\<close> has \<open>DS2[i,i] = 0\<close>
  for every \<open>i\<close> and \<open>DS2[i,j] = DS2[j,i]\<close> for every \<open>i, j\<close>. A matrix is returned unless
  \<open>LP\<close> is empty and no \<open>dmax\<close> is given (then \<open>np.max\<close> raises).
\<close>

theorem separation_symmetric:
  assumes "square N LP" "\<forall>i<N. LP ! i ! i = 0" "0 < N \<or> dmax \<noteq> None"
  shows "\<exists>D T. naive_spacelike_matrix LP dmax None = Inr D \<and>
           dagsep_naive_spacelike_matrix LP dmax = Inr D \<and>
           twolink_spacelike_matrix LP dmax = Inr T \<and>
           (\<forall>i<N. D ! i ! i = 0 \<and> T ! i ! i = 0) \<and>
           (\<forall>i<N. \<forall>j<N. D ! i ! j = D ! j ! i \<and> T ! i ! j = T ! j ! i)"
proof -
  from default_dmax_cases [OF assms(1,3)] obtain d where d: "default_dmax LP dmax = Inr d" ..
  have len: "length LP = N" using assms(1) by (simp add: square_def)
  let ?D = "fold (\<lambda>i ds2. fold (\<lambda>j ds2. naive_body LP d i j ds2) [0..<i] ds2)
                  [0..<N] (init_ds2 LP)"
  let ?T = "fold (\<lambda>i ds2. fold (\<lambda>j ds2. twolink_body LP d i j ds2) [0..<i] ds2)
                  [0..<N] (init_ds2 LP)"
  have D: "naive_spacelike_matrix LP dmax None = Inr ?D"
    "dagsep_naive_spacelike_matrix LP dmax = Inr ?D"
    by (simp_all add: naive_none_loops dagsep_naive_loops d len)
  have T: "twolink_spacelike_matrix LP dmax = Inr ?T"
    by (simp add: twolink_loops d len)
  note De = naive_loops_entries(2) [OF assms(1), of _ _ d]
  note Te = twolink_loops_entries(2) [OF assms(1), of _ _ d]
  have diag0: "init_ds2 LP ! i ! i = 0" if "i < N" for i
    using that assms(1,2) by (simp add: init_ds2_nth [of N])
  have diag: "?D ! i ! i = 0 \<and> ?T ! i ! i = 0" if "i < N" for i
    using that De [of i i] Te [of i i] diag0 by simp
  have sym: "?D ! i ! j = ?D ! j ! i \<and> ?T ! i ! j = ?T ! j ! i" if "i < N" "j < N" for i j
    using that De [of i j] De [of j i] Te [of i j] Te [of j i]
      init_ds2_symmetric [OF assms(1), of i j]
    by (cases "i < j"; cases "j < i") simp_all
  from D T diag sym show ?thesis by blast
qed

text \<open>
  C6. For a spacelike pair \<open>(i, j)\<close> (\<open>i \<noteq> j\<close> and \<open>ds2[i,j] = 0\<close>, that is
  \<open>LP[i,j] + LP[j,i] = 0\<close>), with \<open>dmax\<close> given or defaulted to the maximum entry of \<open>LP\<close>:
  if \<open>w_list\<close> or \<open>z_list\<close> is empty, both naive estimators return a matrix with \<open>dmax\<^sup>2\<close> at
  \<open>DS2[i,j]\<close> and \<open>DS2[j,i]\<close>; if \<open>two_link_future\<close> is empty, so does the two-link estimator.
  Neither raises.
\<close>

theorem spacelike_saturation:
  assumes "square N LP" "i < N" "j < N" "i \<noteq> j" "LP ! i ! j + LP ! j ! i = 0"
  shows "\<exists>d. default_dmax LP dmax = Inr d \<and>
           (dmax = None \<longrightarrow> d = Max (set (concat LP))) \<and>
           (intersect1d (flatnonzero (col LP i)) (flatnonzero (col LP j)) = [] \<or>
            intersect1d (flatnonzero (LP ! i)) (flatnonzero (LP ! j)) = [] \<longrightarrow>
              (\<exists>D. naive_spacelike_matrix LP dmax None = Inr D \<and>
                   dagsep_naive_spacelike_matrix LP dmax = Inr D \<and>
                   D ! i ! j = d * d \<and> D ! j ! i = d * d)) \<and>
           (intersect1d (where_one (col LP i)) (where_one (col LP j)) = [] \<longrightarrow>
              (\<exists>T. twolink_spacelike_matrix LP dmax = Inr T \<and>
                   T ! i ! j = d\<^sup>2 \<and> T ! j ! i = d\<^sup>2))"
proof -
  from assms have N: "0 < N" by simp
  define d where "d = (case dmax of None \<Rightarrow> Max (set (concat LP)) | Some d \<Rightarrow> d)"
  have d: "default_dmax LP dmax = Inr d"
    unfolding d_def by (rule default_dmax_total [OF assms(1) N])
  have dn: "dmax = None \<longrightarrow> d = Max (set (concat LP))" by (simp add: d_def)
  have len: "length LP = N" using assms(1) by (simp add: square_def)
  let ?D = "fold (\<lambda>i ds2. fold (\<lambda>j ds2. naive_body LP d i j ds2) [0..<i] ds2)
                  [0..<N] (init_ds2 LP)"
  let ?T = "fold (\<lambda>i ds2. fold (\<lambda>j ds2. twolink_body LP d i j ds2) [0..<i] ds2)
                  [0..<N] (init_ds2 LP)"
  have D: "naive_spacelike_matrix LP dmax None = Inr ?D"
    "dagsep_naive_spacelike_matrix LP dmax = Inr ?D"
    by (simp_all add: naive_none_loops dagsep_naive_loops d len)
  have T: "twolink_spacelike_matrix LP dmax = Inr ?T"
    by (simp add: twolink_loops d len)
  note De = naive_loops_entries(2) [OF assms(1), of _ _ d]
  note Te = twolink_loops_entries(2) [OF assms(1), of _ _ d]
  have z: "init_ds2 LP ! i ! j = 0" "init_ds2 LP ! j ! i = 0"
    using assms by (simp_all add: init_ds2_nth [of N] add.commute)
  have naive: "?D ! i ! j = d * d \<and> ?D ! j ! i = d * d"
    if "intersect1d (flatnonzero (col LP i)) (flatnonzero (col LP j)) = [] \<or>
        intersect1d (flatnonzero (LP ! i)) (flatnonzero (LP ! j)) = []"
    using naive_sp_dist_saturates [OF that, of d] De [of i j] De [of j i] z assms(2,3,4)
    by (cases "i < j") simp_all
  have twolink: "?T ! i ! j = d\<^sup>2 \<and> ?T ! j ! i = d\<^sup>2"
    if "intersect1d (where_one (col LP i)) (where_one (col LP j)) = []"
    using twolink_sp_dist_saturates [OF that, of d] Te [of i j] Te [of j i] z assms(2,3,4)
    by (cases "i < j") simp_all
  from d dn D T naive twolink show ?thesis by blast
qed

lemma upt_three: "[0..<3] = [0, Suc 0, Suc (Suc 0)]"
  by (simp add: upt_rec eval_nat_numeral)

lemma all_less_three: "(\<forall>i<3. P i) \<longleftrightarrow> P 0 \<and> P (Suc 0) \<and> P (Suc (Suc 0))"
  by (auto simp: eval_nat_numeral less_Suc_eq)

theorem separation_symmetric_witness:
  "\<exists>D T. naive_spacelike_matrix [[0, 0, 0], [1, 0, 0], [1, 0, 0]] None None = Inr D \<and>
         dagsep_naive_spacelike_matrix [[0, 0, 0], [1, 0, 0], [1, 0, 0]] None = Inr D \<and>
         twolink_spacelike_matrix [[0, 0, 0], [1, 0, 0], [1, 0, 0]] None = Inr T \<and>
         D ! 1 ! 1 = 0 \<and> T ! 1 ! 1 = 0 \<and> D ! 1 ! 2 = D ! 2 ! 1 \<and> T ! 1 ! 2 = T ! 2 ! 1"
proof -
  have sq: "square 3 [[0, 0, 0], [1, 0, 0], [1, 0, 0]]" by (simp add: square_def)
  have dg: "\<forall>i<3. ([[0, 0, 0], [1, 0, 0], [1, 0, 0]] :: matrix) ! i ! i = 0"
    by (simp add: all_less_three)
  have n: "0 < (3::nat) \<or> (None :: rat option) \<noteq> None" by simp
  from separation_symmetric [OF sq dg n] show ?thesis
    by (auto simp: all_less_three eval_nat_numeral)
qed

theorem spacelike_saturation_witness:
  "\<exists>D T. naive_spacelike_matrix [[0, 0, 0], [1, 0, 0], [1, 0, 0]] None None = Inr D \<and>
         dagsep_naive_spacelike_matrix [[0, 0, 0], [1, 0, 0], [1, 0, 0]] None = Inr D \<and>
         twolink_spacelike_matrix [[0, 0, 0], [1, 0, 0], [1, 0, 0]] None = Inr T \<and>
         D ! 2 ! 1 = 1 \<and> D ! 1 ! 2 = 1 \<and> T ! 2 ! 1 = 1 \<and> T ! 1 ! 2 = 1"
proof -
  have sq: "square 3 [[0, 0, 0], [1, 0, 0], [1, 0, 0]]" by (simp add: square_def)
  have sp: "([[0, 0, 0], [1, 0, 0], [1, 0, 0]] :: matrix) ! 2 ! 1 +
            ([[0, 0, 0], [1, 0, 0], [1, 0, 0]] :: matrix) ! 1 ! 2 = 0"
    by (simp add: eval_nat_numeral)
  have e1: "intersect1d (flatnonzero (col [[0, 0, 0], [1, 0, 0], [1, 0, 0]] 2))
              (flatnonzero (col [[0, 0, 0], [1, 0, 0], [1, 0, 0]] 1)) = []"
    by (simp add: intersect1d_def flatnonzero_def col_def upt_three eval_nat_numeral)
  have e2: "intersect1d (where_one (col [[0, 0, 0], [1, 0, 0], [1, 0, 0]] 2))
              (where_one (col [[0, 0, 0], [1, 0, 0], [1, 0, 0]] 1)) = []"
    by (simp add: intersect1d_def where_one_def col_def upt_three eval_nat_numeral)
  have mx: "Max (set (concat ([[0, 0, 0], [1, 0, 0], [1, 0, 0]] :: matrix))) = 1"
    by simp
  from spacelike_saturation [OF sq, of 2 1 None, OF _ _ _ sp] e1 e2 mx show ?thesis
    by auto
qed

section \<open>Closure and reduction as operations on relations\<close>

lemma dot_square: "square n A \<Longrightarrow> square n B \<Longrightarrow> square n (dot A B)"
  unfolding square_def dot_def by auto

lemma dot_nth:
  "square n A \<Longrightarrow> square n B \<Longrightarrow> i < n \<Longrightarrow> j < n \<Longrightarrow>
   dot A B ! i ! j = (\<Sum>k<n. A ! i ! k * B ! k ! j)"
  unfolding square_def dot_def
  by (simp add: interv_sum_list_conv_sum_set_nat atLeast0LessThan)

lemma mat_of_square: "square n (mat_of n r)"
  unfolding square_def mat_of_def by auto

lemma mat_of_nth:
  "i < n \<Longrightarrow> j < n \<Longrightarrow> mat_of n r ! i ! j = (if (i, j) \<in> r then 1 else 0)"
  unfolding mat_of_def by simp

lemma zero_one_nth:
  "square n A \<Longrightarrow> zero_one A \<Longrightarrow> i < n \<Longrightarrow> j < n \<Longrightarrow> A ! i ! j = 0 \<or> A ! i ! j = 1"
  unfolding square_def zero_one_def by (metis nth_mem)

lemma mat_of_zero_one: "zero_one (mat_of n r)"
  unfolding zero_one_def mat_of_def by auto

lemma mat_of_rel_of:
  assumes "square n A" "zero_one A"
  shows "mat_of n (rel_of A) = A"
proof (rule square_ext [of n])
  show "square n (mat_of n (rel_of A))" by (rule mat_of_square)
  show "square n A" by fact
  fix i j assume "i < n" "j < n"
  with zero_one_nth [OF assms this] assms(1)
  show "mat_of n (rel_of A) ! i ! j = A ! i ! j"
    by (auto simp: mat_of_nth rel_of_def square_def)
qed

lemma rel_of_mat_of: "rel_of (mat_of n r) = r \<inter> ({..<n} \<times> {..<n})"
  by (auto simp: rel_of_def mat_of_nth mat_of_def split: if_splits)

lemma rel_of_range: "square n A \<Longrightarrow> rel_of A \<subseteq> {..<n} \<times> {..<n}"
  by (auto simp: rel_of_def square_def)

lemma mat_of_cong:
  "(\<And>i j. i < n \<Longrightarrow> j < n \<Longrightarrow> (i, j) \<in> r \<longleftrightarrow> (i, j) \<in> s) \<Longrightarrow> mat_of n r = mat_of n s"
  by (rule square_ext [of n]) (simp_all add: mat_of_square mat_of_nth)

lemma mat_of_eq_iff:
  assumes "r \<subseteq> {..<n} \<times> {..<n}" "s \<subseteq> {..<n} \<times> {..<n}"
  shows "mat_of n r = mat_of n s \<longleftrightarrow> r = s"
proof
  assume eq: "mat_of n r = mat_of n s"
  have h: "(i, j) \<in> r \<longleftrightarrow> (i, j) \<in> s" if "i < n" "j < n" for i j
  proof -
    have "mat_of n r ! i ! j = mat_of n s ! i ! j" by (simp only: eq)
    then show ?thesis using that by (simp add: mat_of_nth split: if_splits)
  qed
  have rr: "i < n \<and> j < n" if "(i, j) \<in> r" for i j using assms(1) that by blast
  have ss: "i < n \<and> j < n" if "(i, j) \<in> s" for i j using assms(2) that by blast
  show "r = s"
  proof (rule set_eqI)
    fix p :: "nat \<times> nat"
    obtain i j where p: "p = (i, j)" by (cases p)
    show "p \<in> r \<longleftrightarrow> p \<in> s" unfolding p using h rr ss by blast
  qed
next
  assume "r = s"
  then show "mat_of n r = mat_of n s" by simp
qed

text \<open>The sum of products in one entry of \<open>np.dot\<close> on zero-one matrices.\<close>

lemma dot_entry_sum:
  fixes a b :: "nat \<Rightarrow> rat"
  assumes "\<And>k. k < n \<Longrightarrow> a k = 0 \<or> a k = 1" "\<And>k. k < n \<Longrightarrow> b k = 0 \<or> b k = 1"
  shows "(\<exists>k<n. a k = 1 \<and> b k = 1) \<longrightarrow> 1 \<le> (\<Sum>k<n. a k * b k)"
    and "\<not> (\<exists>k<n. a k = 1 \<and> b k = 1) \<longrightarrow> (\<Sum>k<n. a k * b k) = 0"
proof -
  have nn: "0 \<le> a k * b k" if "k < n" for k
    using assms(1) [OF that] assms(2) [OF that] by auto
  show "(\<exists>k<n. a k = 1 \<and> b k = 1) \<longrightarrow> 1 \<le> (\<Sum>k<n. a k * b k)"
  proof
    assume "\<exists>k<n. a k = 1 \<and> b k = 1"
    then obtain k where k: "k < n" "a k = 1" "b k = 1" by blast
    have "a k * b k \<le> (\<Sum>k<n. a k * b k)"
      by (rule member_le_sum) (use k nn in auto)
    with k show "1 \<le> (\<Sum>k<n. a k * b k)" by simp
  qed
  show "\<not> (\<exists>k<n. a k = 1 \<and> b k = 1) \<longrightarrow> (\<Sum>k<n. a k * b k) = 0"
  proof
    assume no: "\<not> (\<exists>k<n. a k = 1 \<and> b k = 1)"
    have "a k * b k = 0" if "k < n" for k
      using assms(1) [OF that] assms(2) [OF that] no that by auto
    then show "(\<Sum>k<n. a k * b k) = 0" by (intro sum.neutral) simp
  qed
qed

lemma dot_mat_of_entry:
  assumes A0: "square n A0" "zero_one A0" and ij: "i < n" "j < n"
  shows "((i, j) \<in> r O rel_of A0 \<longrightarrow> 1 \<le> dot (mat_of n r) A0 ! i ! j) \<and>
         ((i, j) \<notin> r O rel_of A0 \<longrightarrow> dot (mat_of n r) A0 ! i ! j = 0)"
proof -
  let ?a = "\<lambda>k. mat_of n r ! i ! k" and ?b = "\<lambda>k. A0 ! k ! j"
  have a: "?a k = 0 \<or> ?a k = 1" if "k < n" for k
    using that ij by (simp add: mat_of_nth)
  have b: "?b k = 0 \<or> ?b k = 1" if "k < n" for k
    using zero_one_nth [OF A0 that ij(2)] .
  have d: "dot (mat_of n r) A0 ! i ! j = (\<Sum>k<n. ?a k * ?b k)"
    by (rule dot_nth [OF mat_of_square A0(1) ij])
  have len: "length A0 = n" using A0(1) by (simp add: square_def)
  have ex: "(\<exists>k<n. ?a k = 1 \<and> ?b k = 1) \<longleftrightarrow> (i, j) \<in> r O rel_of A0"
    using ij by (auto simp: mat_of_nth rel_of_def len split: if_splits)
  from dot_entry_sum [of n ?a ?b, OF a b] show ?thesis
    unfolding d ex by blast
qed

lemma tc_step_mat_of:
  assumes A0: "square n A0" "zero_one A0"
  shows "tc_step A0 (mat_of n r) = mat_of n (tc_rel (rel_of A0) r)"
proof (rule square_ext [of n])
  show "square n (tc_step A0 (mat_of n r))"
    unfolding tc_step_def
    by (intro map_map_square elementwise_square dot_square mat_of_square A0)
  show "square n (mat_of n (tc_rel (rel_of A0) r))" by (rule mat_of_square)
  fix i j assume ij: "i < n" "j < n"
  have len: "length A0 = n" using A0(1) by (simp add: square_def)
  have e: "tc_step A0 (mat_of n r) ! i ! j =
        (let x = dot (mat_of n r) A0 ! i ! j + A0 ! i ! j in if x > 1 then 1 else x)"
    unfolding tc_step_def Let_def using ij A0
    by (simp add: map_map_nth [of n] elementwise_square dot_square mat_of_square
        elementwise_nth [of n])
  have a0: "A0 ! i ! j = (if (i, j) \<in> rel_of A0 then 1 else 0)"
    using zero_one_nth [OF A0 ij] ij by (auto simp: rel_of_def len)
  from dot_mat_of_entry [OF A0 ij, of r]
  show "tc_step A0 (mat_of n r) ! i ! j = mat_of n (tc_rel (rel_of A0) r) ! i ! j"
    unfolding e Let_def using ij a0
    by (auto simp: mat_of_nth tc_rel_def)
qed

lemma tr_step_mat_of:
  assumes A0: "square n A0" "zero_one A0"
  shows "tr_step A0 (mat_of n r) = mat_of n (tr_rel (rel_of A0) r)"
proof (rule square_ext [of n])
  show "square n (tr_step A0 (mat_of n r))"
    unfolding tr_step_def
    by (intro map_map_square elementwise_square dot_square mat_of_square A0)
  show "square n (mat_of n (tr_rel (rel_of A0) r))" by (rule mat_of_square)
  fix i j assume ij: "i < n" "j < n"
  have len: "length A0 = n" using A0(1) by (simp add: square_def)
  have e: "tr_step A0 (mat_of n r) ! i ! j =
        (let x = A0 ! i ! j - dot (mat_of n r) A0 ! i ! j;
             y = (if x < 1 then 0 else x)
         in if y > 1 then 1 else y)"
    unfolding tr_step_def Let_def using ij A0
    by (simp add: map_map_nth [of n] map_map_square elementwise_square dot_square mat_of_square
        elementwise_nth [of n])
  have a0: "A0 ! i ! j = (if (i, j) \<in> rel_of A0 then 1 else 0)"
    using zero_one_nth [OF A0 ij] ij by (auto simp: rel_of_def len)
  from dot_mat_of_entry [OF A0 ij, of r]
  show "tr_step A0 (mat_of n r) ! i ! j = mat_of n (tr_rel (rel_of A0) r) ! i ! j"
    unfolding e Let_def using ij a0
    by (auto simp: mat_of_nth tr_rel_def)
qed

section \<open>Convergence of the transitive completion\<close>

lemma tc_step_funpow_mat_of:
  assumes "square n A0" "zero_one A0"
  shows "(tc_step A0 ^^ t) (mat_of n r) = mat_of n ((tc_rel (rel_of A0) ^^ t) r)"
  by (induction t) (simp_all add: tc_step_mat_of [OF assms])

lemma tr_step_funpow_mat_of:
  assumes "square n A0" "zero_one A0"
  shows "(tr_step A0 ^^ t) (mat_of n r) = mat_of n ((tr_rel (rel_of A0) ^^ t) r)"
  by (induction t) (simp_all add: tr_step_mat_of [OF assms])

text \<open>An increasing chain of subsets of a finite set is constant after \<open>card S\<close> steps.\<close>

lemma chain_stabilises:
  fixes F :: "'a set \<Rightarrow> 'a set"
  assumes mono: "\<And>X Y. X \<subseteq> Y \<Longrightarrow> F X \<subseteq> F Y"
      and bound: "\<And>X. F X \<subseteq> S" and fin: "finite S"
  shows "(F ^^ Suc (card S)) {} = (F ^^ card S) {}"
proof -
  have inc: "(F ^^ m) {} \<subseteq> (F ^^ Suc m) {}" for m
    by (induction m) (auto intro: mono [THEN subsetD])
  have sub: "(F ^^ Suc m) {} \<subseteq> S" for m
    using bound by simp
  have finm: "finite ((F ^^ Suc m) {})" for m
    using sub fin by (rule finite_subset)
  have grow: "(F ^^ Suc m) {} \<noteq> (F ^^ m) {} \<Longrightarrow> m < card ((F ^^ Suc m) {})" for m
  proof (induction m)
    case 0
    then have "F {} \<noteq> {}" by simp
    moreover have "finite (F {})" using finm [of 0] by simp
    ultimately have "0 < card (F {})" by (simp add: card_gt_0_iff)
    then show ?case by simp
  next
    case (Suc m)
    have "(F ^^ Suc m) {} \<noteq> (F ^^ m) {}"
    proof
      assume "(F ^^ Suc m) {} = (F ^^ m) {}"
      then have "F ((F ^^ Suc m) {}) = F ((F ^^ m) {})" by simp
      with Suc.prems show False by simp
    qed
    from Suc.IH [OF this] have "m < card ((F ^^ Suc m) {})" .
    moreover have "(F ^^ Suc m) {} \<subset> (F ^^ Suc (Suc m)) {}"
      using inc [of "Suc m"] Suc.prems by blast
    then have "card ((F ^^ Suc m) {}) < card ((F ^^ Suc (Suc m)) {})"
      using finm [of "Suc m"] by (intro psubset_card_mono)
    ultimately show ?case by linarith
  qed
  show ?thesis
  proof (rule ccontr)
    assume "(F ^^ Suc (card S)) {} \<noteq> (F ^^ card S) {}"
    from grow [OF this] have "card S < card ((F ^^ Suc (card S)) {})" .
    moreover have "card ((F ^^ Suc (card S)) {}) \<le> card S"
      using sub fin by (intro card_mono)
    ultimately show False by simp
  qed
qed

lemma tc_rel_row:
  "tc_rel r0 R `` {i} = r0 `` {i} \<union> r0 `` (R `` {i})"
  by (auto simp: tc_rel_def)

lemma tc_rel_funpow_row:
  "(tc_rel r0 ^^ t) r0 `` {i} = ((\<lambda>T. r0 `` {i} \<union> r0 `` T) ^^ Suc t) {}"
proof (induction t)
  case 0
  show ?case by simp
next
  case (Suc t)
  have "(tc_rel r0 ^^ Suc t) r0 `` {i} = r0 `` {i} \<union> r0 `` ((tc_rel r0 ^^ t) r0 `` {i})"
    by (simp add: tc_rel_row)
  also have "\<dots> = ((\<lambda>T. r0 `` {i} \<union> r0 `` T) ^^ Suc (Suc t)) {}"
    unfolding Suc.IH by simp
  finally show ?case .
qed

lemma tc_rel_stabilises:
  assumes r0: "r0 \<subseteq> {..<Suc m} \<times> {..<Suc m}"
  shows "tc_rel r0 ((tc_rel r0 ^^ m) r0) = (tc_rel r0 ^^ m) r0"
proof -
  have rows: "(tc_rel r0 ^^ Suc m) r0 `` {i} = (tc_rel r0 ^^ m) r0 `` {i}" for i
  proof -
    let ?F = "\<lambda>T. r0 `` {i} \<union> r0 `` T"
    have "(?F ^^ Suc (card {..<Suc m})) {} = (?F ^^ card {..<Suc m}) {}"
      by (rule chain_stabilises) (use r0 in auto)
    then have "(?F ^^ Suc (Suc m)) {} = (?F ^^ Suc m) {}" by simp
    then show ?thesis by (simp only: tc_rel_funpow_row)
  qed
  have "(tc_rel r0 ^^ Suc m) r0 = (tc_rel r0 ^^ m) r0"
  proof (rule set_eqI)
    fix p :: "nat \<times> nat"
    obtain i j where p: "p = (i, j)" by (cases p)
    have "j \<in> (tc_rel r0 ^^ Suc m) r0 `` {i} \<longleftrightarrow> j \<in> (tc_rel r0 ^^ m) r0 `` {i}"
      by (simp only: rows)
    then show "p \<in> (tc_rel r0 ^^ Suc m) r0 \<longleftrightarrow> p \<in> (tc_rel r0 ^^ m) r0"
      unfolding p by blast
  qed
  then show ?thesis by simp
qed

lemma tc_rel_funpow_subset: "(tc_rel r0 ^^ t) r0 \<subseteq> r0\<^sup>+"
proof (induction t)
  case 0
  show ?case by auto
next
  case (Suc t)
  then show ?case
    by (auto simp: tc_rel_def intro: trancl_into_trancl)
qed

lemma tc_rel_fixpoint:
  assumes "tc_rel r0 R = R"
  shows "r0\<^sup>+ \<subseteq> R"
proof
  fix p assume "p \<in> r0\<^sup>+"
  then obtain a b where p: "p = (a, b)" and ab: "(a, b) \<in> r0\<^sup>+" by (cases p) auto
  from ab have "(a, b) \<in> R"
  proof (induction rule: trancl_induct)
    case (base y)
    then have "(a, y) \<in> tc_rel r0 R" by (simp add: tc_rel_def)
    then show ?case by (simp only: assms)
  next
    case (step y z)
    then have "(a, z) \<in> tc_rel r0 R" by (auto simp: tc_rel_def)
    then show ?case by (simp only: assms)
  qed
  then show "p \<in> R" by (simp add: p)
qed

lemma tc_rel_limit:
  assumes "r0 \<subseteq> {..<Suc m} \<times> {..<Suc m}"
  shows "(tc_rel r0 ^^ m) r0 = r0\<^sup>+"
  using tc_rel_funpow_subset [where ?r0.0 = r0 and t = m]
    tc_rel_fixpoint [OF tc_rel_stabilises [OF assms]]
  by blast

lemma tc_loop_converges:
  assumes "tc_step A0 ((tc_step A0 ^^ t) A) = (tc_step A0 ^^ t) A" "i + t < N"
  shows "tc_loop A0 N A i = Inr ((tc_step A0 ^^ t) A)"
  using assms
proof (induction t arbitrary: A i)
  case 0
  then show ?case by (subst tc_loop.simps) (simp add: Let_def)
next
  case (Suc t)
  show ?case
  proof (cases "tc_step A0 A = A")
    case True
    then have "(tc_step A0 ^^ k) A = A" for k by (induction k) simp_all
    with True Suc.prems show ?thesis by (subst tc_loop.simps) (simp add: Let_def)
  next
    case False
    have sw: "(tc_step A0 ^^ Suc t) A = (tc_step A0 ^^ t) (tc_step A0 A)"
      by (simp add: funpow_swap1)
    have fx: "tc_step A0 ((tc_step A0 ^^ t) (tc_step A0 A)) = (tc_step A0 ^^ t) (tc_step A0 A)"
      using Suc.prems(1) by (simp only: sw)
    have "i + 1 + t < N" using Suc.prems(2) by simp
    with fx have "tc_loop A0 N (tc_step A0 A) (i + 1) = Inr ((tc_step A0 ^^ t) (tc_step A0 A))"
      by (rule Suc.IH)
    with False Suc.prems show ?thesis
      by (subst tc_loop.simps) (simp add: Let_def sw del: funpow.simps)
  qed
qed

lemma transitive_completion_closure:
  assumes "square N A" "zero_one A" "0 < N"
  shows "transitive_completion A = Inr (mat_of N ((rel_of A)\<^sup>+))"
    and "\<exists>t<N. (tc_step A ^^ t) A = mat_of N ((rel_of A)\<^sup>+)"
    and "tc_step A (mat_of N ((rel_of A)\<^sup>+)) = mat_of N ((rel_of A)\<^sup>+)"
proof -
  let ?r = "rel_of A"
  obtain m where m: "N = Suc m" using assms(3) by (cases N) auto
  have r: "?r \<subseteq> {..<Suc m} \<times> {..<Suc m}"
    using rel_of_range [OF assms(1)] by (simp add: m)
  have A: "A = mat_of N ?r" by (simp add: mat_of_rel_of [OF assms(1,2)])
  have it: "(tc_step A ^^ t) A = mat_of N ((tc_rel ?r ^^ t) ?r)" for t
    using tc_step_funpow_mat_of [OF assms(1,2), of t ?r] A by simp
  have lim: "(tc_step A ^^ m) A = mat_of N (?r\<^sup>+)"
    by (simp add: it tc_rel_limit [OF r])
  then show "\<exists>t<N. (tc_step A ^^ t) A = mat_of N (?r\<^sup>+)"
    using m by blast
  show fp: "tc_step A (mat_of N (?r\<^sup>+)) = mat_of N (?r\<^sup>+)"
    using tc_rel_stabilises [OF r]
    by (simp add: tc_step_mat_of [OF assms(1,2)] tc_rel_limit [OF r])
  have len: "length A = N" using assms(1) by (simp add: square_def)
  have "tc_loop A N A 0 = Inr ((tc_step A ^^ m) A)"
    by (rule tc_loop_converges) (use m fp lim in simp_all)
  then show "transitive_completion A = Inr (mat_of N (?r\<^sup>+))"
    by (simp add: transitive_completion_def len lim)
qed

lemma trancl_range:
  assumes "r \<subseteq> {..<n} \<times> {..<n}"
  shows "r\<^sup>+ \<subseteq> {..<n} \<times> {..<n}"
  using assms by (rule trancl_subset_Sigma)

lemma rel_of_closure:
  assumes "square N A"
  shows "rel_of (mat_of N ((rel_of A)\<^sup>+)) = (rel_of A)\<^sup>+"
  using trancl_range [OF rel_of_range [OF assms]] by (auto simp: rel_of_mat_of)

lemma transitive_completion_empty: "transitive_completion [] = Inl AssertionError"
  unfolding transitive_completion_def by (subst tc_loop.simps) (simp add: Let_def)

lemma tc_two_cycle: "transitive_completion [[0, 1], [1, 0]] = Inr [[1, 1], [1, 1]]"
  unfolding transitive_completion_def
  apply (subst tc_loop.simps)
  apply (simp add: Let_def tc_step_def dot_def elementwise_def upt_two)
  apply (subst tc_loop.simps)
  apply (simp add: Let_def tc_step_def dot_def elementwise_def upt_two)
  done

lemma rel_of_two_cycle: "rel_of [[0, 1], [1, 0]] = {(0, 1), (1, 0)}"
  by (auto simp: rel_of_def less_Suc_eq eval_nat_numeral nth_Cons split: nat.splits)

lemma two_cycle_not_acyclic: "\<not> acyclic (rel_of [[0, 1], [1, 0]])"
proof -
  have "(0::nat, 0::nat) \<in> {(0, 1), (1, 0)}\<^sup>+"
    by (rule trancl_trans [of _ 1]) auto
  then show ?thesis
    unfolding rel_of_two_cycle acyclic_def by blast
qed

text \<open>
  C7 (as amended). \<open>transitive_completion\<close> is a total function: it always returns a matrix
  or fails its assertion. On every non-empty square zero-one matrix, cyclic or not, the
  loop reaches a fixed point of its body at some iterate \<open>t < N\<close> and returns it normally;
  the result is the matrix of the transitive closure of the input relation.
\<close>

theorem transitive_completion_converges:
  assumes "square N A" "zero_one A" "0 < N"
  shows "\<exists>t<N. transitive_completion A = Inr ((tc_step A ^^ t) A) \<and>
               tc_step A ((tc_step A ^^ t) A) = (tc_step A ^^ t) A \<and>
               (tc_step A ^^ t) A = mat_of N ((rel_of A)\<^sup>+)"
proof -
  from transitive_completion_closure(2) [OF assms] obtain t
    where t: "t < N" "(tc_step A ^^ t) A = mat_of N ((rel_of A)\<^sup>+)" by blast
  with transitive_completion_closure(1,3) [OF assms] show ?thesis by auto
qed

theorem transitive_completion_converges_witness:
  "\<exists>t<2. transitive_completion [[0, 1], [1, 0]] =
            Inr ((tc_step [[0, 1], [1, 0]] ^^ t) [[0, 1], [1, 0]]) \<and>
          tc_step [[0, 1], [1, 0]] ((tc_step [[0, 1], [1, 0]] ^^ t) [[0, 1], [1, 0]]) =
            (tc_step [[0, 1], [1, 0]] ^^ t) [[0, 1], [1, 0]] \<and>
          (tc_step [[0, 1], [1, 0]] ^^ t) [[0, 1], [1, 0]] =
            mat_of 2 ((rel_of [[0, 1], [1, 0]])\<^sup>+)"
proof -
  have sq: "square 2 [[0, 1], [1, 0]]" by (simp add: square_def)
  have zo: "zero_one [[0, 1], [1, 0]]" by (simp add: zero_one_def)
  from transitive_completion_converges [OF sq zo] show ?thesis by simp
qed

text \<open>
  C7 (as stated) fails: the two-node cycle is not acyclic, and \<open>transitive_completion\<close>
  returns its closure, the all-ones matrix, instead of failing the assertion.
\<close>

theorem transitive_completion_cyclic_counterexample:
  "\<not> acyclic (rel_of [[0, 1], [1, 0]]) \<and>
   transitive_completion [[0, 1], [1, 0]] = Inr [[1, 1], [1, 1]]"
  by (simp add: two_cycle_not_acyclic tc_two_cycle)

text \<open>
  C5. For every square zero-one matrix \<open>A\<close> (acyclic or not),
  \<open>transitive_completion(transitive_completion(A))\<close> is \<open>transitive_completion(A)\<close>; an error of
  the inner call is the error of the whole expression. For \<open>N > 0\<close> the call returns a matrix.
\<close>

theorem transitive_completion_idempotent:
  assumes "square N A" "zero_one A"
  shows "(case transitive_completion A of Inl e \<Rightarrow> Inl e | Inr C \<Rightarrow> transitive_completion C) =
           transitive_completion A \<and>
         (0 < N \<longrightarrow> (\<exists>C. transitive_completion A = Inr C))"
proof (cases "0 < N")
  case False
  with assms(1) have "A = []" by (simp add: square_def)
  with False show ?thesis by (simp add: transitive_completion_empty)
next
  case True
  let ?C = "mat_of N ((rel_of A)\<^sup>+)"
  have A: "transitive_completion A = Inr ?C"
    by (rule transitive_completion_closure(1) [OF assms True])
  have "transitive_completion ?C = Inr (mat_of N ((rel_of ?C)\<^sup>+))"
    by (rule transitive_completion_closure(1) [OF mat_of_square mat_of_zero_one True])
  then have "transitive_completion ?C = Inr ?C"
    by (simp add: rel_of_closure [OF assms(1)])
  with A True show ?thesis by simp
qed

theorem transitive_completion_idempotent_witness:
  "(case transitive_completion [[0, 0, 0], [1, 0, 0], [0, 1, 0]] of Inl e \<Rightarrow> Inl e
    | Inr C \<Rightarrow> transitive_completion C) =
     transitive_completion [[0, 0, 0], [1, 0, 0], [0, 1, 0]] \<and>
   (\<exists>C. transitive_completion [[0, 0, 0], [1, 0, 0], [0, 1, 0]] = Inr C)"
proof -
  have sq: "square 3 [[0, 0, 0], [1, 0, 0], [0, 1, 0]]" by (simp add: square_def)
  have zo: "zero_one [[0, 0, 0], [1, 0, 0], [0, 1, 0]]" by (simp add: zero_one_def)
  from transitive_completion_idempotent [OF sq zo] show ?thesis by simp
qed

section \<open>Reduction followed by completion\<close>

lemma tr_loop_funpow: "tr_loop A0 m A i = (tr_step A0 ^^ nat (m - i)) A"
proof (induction A0 m A i rule: tr_loop.induct)
  case (1 A0 m A i)
  show ?case
  proof (cases "i < m")
    case True
    then have n: "nat (m - i) = Suc (nat (m - (i + 1)))" by simp
    from True have "tr_loop A0 m A i = tr_loop A0 m (tr_step A0 A) (i + 1)"
      by (subst tr_loop.simps) simp
    also have "\<dots> = (tr_step A0 ^^ nat (m - (i + 1))) (tr_step A0 A)"
      using True by (rule "1.IH")
    also have "\<dots> = (tr_step A0 ^^ nat (m - i)) A"
      unfolding n by (simp only: funpow_Suc_right o_apply)
    finally show ?thesis .
  next
    case False
    then show ?thesis by (subst tr_loop.simps) simp
  qed
qed

lemma transitive_reduction_funpow:
  "transitive_reduction A None = (tr_step A ^^ length A) A"
  by (simp add: transitive_reduction_def tr_loop_funpow)

text \<open>
  On a transitive acyclic finite relation, one reduction step yields the covering relation
  \<open>r - r O r\<close>, every further step leaves it unchanged, and its transitive closure is \<open>r\<close>.
\<close>

lemma covering_step:
  assumes tr: "trans r" and ac: "acyclic r" and fin: "finite r"
  shows "tr_rel r (tr_rel r r) = tr_rel r r"
proof -
  have wf: "wf r" using fin ac by (rule finite_acyclic_wf)
  have sub: "(i, j) \<in> (r - r O r) O r" if ij: "(i, j) \<in> r O r" for i j
  proof -
    define K where "K = {k. (i, k) \<in> r \<and> (k, j) \<in> r}"
    from ij obtain k where "(i, k) \<in> r" "(k, j) \<in> r" by (rule relcompE) simp
    then have "k \<in> K" by (simp add: K_def)
    with wf obtain z where z: "z \<in> K" and zmin: "\<And>y. (y, z) \<in> r \<Longrightarrow> y \<notin> K"
      by (rule wfE_min) blast
    from z have iz: "(i, z) \<in> r" and zj: "(z, j) \<in> r" by (simp_all add: K_def)
    have "(i, z) \<notin> r O r"
    proof
      assume "(i, z) \<in> r O r"
      then obtain y where y: "(i, y) \<in> r" "(y, z) \<in> r" by (rule relcompE) simp
      from tr y(2) zj have "(y, j) \<in> r" by (rule transD)
      with y(1) have "y \<in> K" by (simp add: K_def)
      with zmin [OF y(2)] show False by simp
    qed
    with iz have "(i, z) \<in> r - r O r" by simp
    then show ?thesis using zj by (rule relcompI)
  qed
  have "tr_rel r r \<subseteq> r" by (simp add: tr_rel_def)
  then have "tr_rel r r O r \<subseteq> r O r" by (rule relcomp_mono) simp
  moreover have "r O r \<subseteq> tr_rel r r O r"
  proof
    fix p assume p: "p \<in> r O r"
    obtain i j where "p = (i, j)" by (cases p)
    with sub [of i j] p show "p \<in> tr_rel r r O r" by (simp add: tr_rel_def)
  qed
  ultimately have "tr_rel r r O r = r O r" by (rule equalityI)
  then show ?thesis by (simp add: tr_rel_def)
qed

lemma covering_funpow:
  assumes "trans r" "acyclic r" "finite r"
  shows "(tr_rel r ^^ Suc t) r = tr_rel r r"
  by (induction t) (simp_all add: covering_step [OF assms])

lemma covering_closure:
  assumes tr: "trans r" and ac: "acyclic r" and fin: "finite r"
  shows "(tr_rel r r)\<^sup>+ = r"
proof
  have "tr_rel r r \<subseteq> r" by (auto simp: tr_rel_def)
  then have "(tr_rel r r)\<^sup>+ \<subseteq> r\<^sup>+" by (rule trancl_mono_subset)
  then show "(tr_rel r r)\<^sup>+ \<subseteq> r" using tr by (simp add: trancl_id)
next
  have irr: "(x, x) \<notin> r" for x
    using ac by (auto simp: acyclic_def)
  have fK: "finite {k. (i, k) \<in> r \<and> (k, j) \<in> r}" for i j
    by (rule finite_subset [of _ "snd ` r"]) (use fin in force)+
  have "(i, j) \<in> (tr_rel r r)\<^sup>+" if "(i, j) \<in> r" for i j
    using that
  proof (induction "card {k. (i, k) \<in> r \<and> (k, j) \<in> r}" arbitrary: i j rule: less_induct)
    case less
    show ?case
    proof (cases "(i, j) \<in> r O r")
      case False
      with less.prems have "(i, j) \<in> tr_rel r r" by (simp add: tr_rel_def)
      then show ?thesis by blast
    next
      case True
      then obtain k where k: "(i, k) \<in> r" "(k, j) \<in> r" by blast
      have kj: "(k', j) \<in> r" if "(k', k) \<in> r" for k'
        using tr that k(2) by (rule transD)
      have ik: "(i, k') \<in> r" if "(k, k') \<in> r" for k'
        using tr k(1) that by (rule transD)
      have "{k'. (i, k') \<in> r \<and> (k', k) \<in> r} \<subseteq> {k. (i, k) \<in> r \<and> (k, j) \<in> r}"
        using kj by blast
      moreover have "k \<in> {k. (i, k) \<in> r \<and> (k, j) \<in> r}" using k by simp
      moreover have "k \<notin> {k'. (i, k') \<in> r \<and> (k', k) \<in> r}" using irr [of k] by simp
      ultimately
      have "{k'. (i, k') \<in> r \<and> (k', k) \<in> r} \<subset> {k. (i, k) \<in> r \<and> (k, j) \<in> r}"
        by blast
      then have c1: "card {k'. (i, k') \<in> r \<and> (k', k) \<in> r} < card {k. (i, k) \<in> r \<and> (k, j) \<in> r}"
        using fK by (intro psubset_card_mono)
      have "{k'. (k, k') \<in> r \<and> (k', j) \<in> r} \<subseteq> {k. (i, k) \<in> r \<and> (k, j) \<in> r}"
        using ik by blast
      moreover have "k \<in> {k. (i, k) \<in> r \<and> (k, j) \<in> r}" using k by simp
      moreover have "k \<notin> {k'. (k, k') \<in> r \<and> (k', j) \<in> r}" using irr [of k] by simp
      ultimately
      have "{k'. (k, k') \<in> r \<and> (k', j) \<in> r} \<subset> {k. (i, k) \<in> r \<and> (k, j) \<in> r}"
        by blast
      then have c2: "card {k'. (k, k') \<in> r \<and> (k', j) \<in> r} < card {k. (i, k) \<in> r \<and> (k, j) \<in> r}"
        using fK by (intro psubset_card_mono)
      from less.hyps [OF c1 k(1)] less.hyps [OF c2 k(2)] show ?thesis
        by (rule trancl_trans)
    qed
  qed
  then show "r \<subseteq> (tr_rel r r)\<^sup>+" by auto
qed

lemma rel_of_finite: "finite (rel_of A)"
  by (rule finite_subset [of _ "{..<length A} \<times> {..<length A}"]) (auto simp: rel_of_def)

lemma transitive_reduction_covering:
  assumes "square N A" "zero_one A" "trans (rel_of A)" "acyclic (rel_of A)" "0 < N"
  shows "transitive_reduction A None = mat_of N (tr_rel (rel_of A) (rel_of A))"
proof -
  obtain m where m: "N = Suc m" using assms(5) by (cases N) auto
  have len: "length A = N" using assms(1) by (simp add: square_def)
  have "transitive_reduction A None = (tr_step A ^^ N) (mat_of N (rel_of A))"
    by (simp add: transitive_reduction_funpow len mat_of_rel_of [OF assms(1,2)])
  also have "\<dots> = mat_of N ((tr_rel (rel_of A) ^^ N) (rel_of A))"
    by (rule tr_step_funpow_mat_of [OF assms(1,2)])
  also have "(tr_rel (rel_of A) ^^ N) (rel_of A) = tr_rel (rel_of A) (rel_of A)"
    unfolding m by (rule covering_funpow [OF assms(3,4) rel_of_finite])
  finally show ?thesis .
qed

text \<open>
  Reduction followed by completion reconstructs the input (the property of C4) on every
  non-empty square zero-one matrix \<open>A\<close> that is transitively closed and acyclic:
  \<open>transitive_completion(transitive_reduction(A))\<close> returns \<open>A\<close>.
\<close>

theorem reduction_then_completion:
  assumes "square N A" "zero_one A" "trans (rel_of A)" "acyclic (rel_of A)" "0 < N"
  shows "transitive_completion (transitive_reduction A None) = Inr A"
proof -
  let ?H = "tr_rel (rel_of A) (rel_of A)"
  have H: "?H \<subseteq> {..<N} \<times> {..<N}"
    using rel_of_range [OF assms(1)] by (auto simp: tr_rel_def)
  then have rH: "rel_of (mat_of N ?H) = ?H" by (auto simp: rel_of_mat_of)
  have "transitive_completion (mat_of N ?H) = Inr (mat_of N ((rel_of (mat_of N ?H))\<^sup>+))"
    by (rule transitive_completion_closure(1) [OF mat_of_square mat_of_zero_one assms(5)])
  also have "\<dots> = Inr (mat_of N (rel_of A))"
    unfolding rH by (simp only: covering_closure [OF assms(3,4) rel_of_finite])
  finally show ?thesis
    by (simp add: transitive_reduction_covering [OF assms] mat_of_rel_of [OF assms(1,2)])
qed

lemma rel_of_chain3: "rel_of [[0, 0, 0], [1, 0, 0], [1, 1, 0]] = {(1, 0), (2, 0), (2, 1)}"
  by (auto simp: rel_of_def less_Suc_eq eval_nat_numeral nth_Cons split: nat.splits)

theorem reduction_then_completion_witness:
  "transitive_completion (transitive_reduction [[0, 0, 0], [1, 0, 0], [1, 1, 0]] None) =
   Inr [[0, 0, 0], [1, 0, 0], [1, 1, 0]]"
proof -
  have sq: "square 3 [[0, 0, 0], [1, 0, 0], [1, 1, 0]]" by (simp add: square_def)
  have zo: "zero_one [[0, 0, 0], [1, 0, 0], [1, 1, 0]]" by (simp add: zero_one_def)
  have tr: "trans (rel_of [[0, 0, 0], [1, 0, 0], [1, 1, 0]])"
    unfolding rel_of_chain3 by (auto simp: trans_def)
  have ac: "acyclic (rel_of [[0, 0, 0], [1, 0, 0], [1, 1, 0]])"
    unfolding rel_of_chain3 by (rule acyclicI_order [where f = "\<lambda>x. x"]) auto
  from reduction_then_completion [OF sq zo tr ac] show ?thesis by simp
qed

lemma rel_of_empty: "rel_of [] = {}"
  by (simp add: rel_of_def)

text \<open>
  The empty \<open>0 \<times> 0\<close> matrix is square, zero-one, transitively closed and acyclic. On it
  \<open>transitive_reduction\<close> and both versions of \<open>longest_path_matrix\<close> return the empty matrix.
\<close>

lemma empty_matrix_closed_acyclic:
  "square 0 [] \<and> zero_one [] \<and> trans (rel_of []) \<and> acyclic (rel_of [])"
  by (simp add: square_def zero_one_def rel_of_empty acyclic_def)

lemma empty_matrix_siblings:
  "transitive_reduction [] None = [] \<and>
   longest_path_matrix [] None = Some [] \<and>
   dagsep_longest_path_matrix [] None = Some []"
proof (intro conjI)
  show "transitive_reduction [] None = []"
    by (simp add: transitive_reduction_funpow)
  show "longest_path_matrix [] None = Some []"
    unfolding longest_path_matrix_def
    by (subst lpm_loop.simps) (simp add: msum_def zeros_def)
  show "dagsep_longest_path_matrix [] None = Some []"
    unfolding dagsep_longest_path_matrix_def
    by (subst dagsep_lpm_loop.simps) (simp add: msum_def zeros_def)
qed

text \<open>
  C4 on the empty matrix. The property is that \<open>transitive_completion(transitive_reduction(A))\<close>
  returns \<open>A\<close>; for the empty matrix the reduction returns it unchanged, the first pass of
  the completion finds the fixed point at once, and the assertion \<open>i < N\<close> (\<open>0 < 0\<close>) of that
  same pass fails: the composition raises AssertionError instead of returning the empty
  matrix.
\<close>

theorem reduction_then_completion_empty_matrix:
  "transitive_completion (transitive_reduction [] None) = Inl AssertionError"
  by (simp add: transitive_reduction_funpow transitive_completion_empty)

section \<open>Longest paths of path graphs under a cutoff\<close>

lemma supports_rel_of:
  assumes "square n A" "zero_one A"
  shows "supports n A (rel_of A)"
  unfolding supports_def
proof (intro conjI allI impI)
  show "square n A" by fact
next
  fix i j assume ij: "i < n" "j < n"
  have len: "length A = n" using assms(1) by (simp add: square_def)
  { assume "(i, j) \<in> rel_of A" then show "1 \<le> A ! i ! j" by (simp add: rel_of_def) }
  { assume "(i, j) \<notin> rel_of A"
    with zero_one_nth [OF assms ij] ij show "A ! i ! j = 0" by (auto simp: rel_of_def len) }
qed

lemma supports_dot:
  assumes B: "supports n B r" and A: "square n A" "zero_one A"
  shows "supports n (dot B A) (r O rel_of A)"
  unfolding supports_def
proof (intro conjI allI impI)
  from B have sqB: "square n B" by (simp add: supports_def)
  show "square n (dot B A)" using sqB A(1) by (rule dot_square)
  fix i j assume ij: "i < n" "j < n"
  have len: "length A = n" using A(1) by (simp add: square_def)
  have d: "dot B A ! i ! j = (\<Sum>k<n. B ! i ! k * A ! k ! j)"
    by (rule dot_nth [OF sqB A(1) ij])
  have Bnn: "0 \<le> B ! i ! k" if "k < n" for k
    using B ij(1) that unfolding supports_def
    by (cases "(i, k) \<in> r") (auto intro: order_trans [of 0 1])
  have Ann: "0 \<le> A ! k ! j" if "k < n" for k
    using zero_one_nth [OF A that ij(2)] by auto
  have nn: "0 \<le> B ! i ! k * A ! k ! j" if "k < n" for k
    using Bnn [OF that] Ann [OF that] by simp
  { assume "(i, j) \<in> r O rel_of A"
    then obtain k where k: "(i, k) \<in> r" "(k, j) \<in> rel_of A" by blast
    then have kn: "k < n" and Ak: "A ! k ! j = 1" by (simp_all add: rel_of_def len)
    from B ij(1) kn k(1) have "1 \<le> B ! i ! k" by (simp add: supports_def)
    with Ak have "1 \<le> B ! i ! k * A ! k ! j" by simp
    also have "B ! i ! k * A ! k ! j \<le> (\<Sum>k<n. B ! i ! k * A ! k ! j)"
      by (rule member_le_sum) (use kn nn in auto)
    finally show "1 \<le> dot B A ! i ! j" by (simp only: d) }
  { assume no: "(i, j) \<notin> r O rel_of A"
    have "B ! i ! k * A ! k ! j = 0" if "k < n" for k
    proof (cases "(i, k) \<in> r")
      case True
      with no have "(k, j) \<notin> rel_of A" by blast
      with zero_one_nth [OF A that ij(2)] that ij have "A ! k ! j = 0"
        by (auto simp: rel_of_def len)
      then show ?thesis by simp
    next
      case False
      with B ij(1) that have "B ! i ! k = 0" by (simp add: supports_def)
      then show ?thesis by simp
    qed
    then have "(\<Sum>k<n. B ! i ! k * A ! k ! j) = 0" by (intro sum.neutral) simp
    then show "dot B A ! i ! j = 0" by (simp only: d) }
qed

lemma supports_msum:
  assumes B: "supports n B r" and r: "r \<subseteq> {..<n} \<times> {..<n}"
  shows "0 < msum B \<longleftrightarrow> r \<noteq> {}"
proof -
  from B have sq: "square n B" by (simp add: supports_def)
  have entry: "x = 0 \<or> 1 \<le> x" if "row \<in> set B" "x \<in> set row" for row x
  proof -
    from that sq obtain i j where "i < n" "j < n" "x = B ! i ! j"
      unfolding square_def by (metis in_set_conv_nth)
    with B show ?thesis unfolding supports_def by blast
  qed
  then have nn: "0 \<le> x" if "row \<in> set B" "x \<in> set row" for row x
    using that by (fastforce intro: order_trans [of 0 1])
  have rows: "0 \<le> s" if "s \<in> set (map sum_list B)" for s
    using that nn by (auto intro!: sum_list_nonneg)
  have "msum B = 0 \<longleftrightarrow> (\<forall>row\<in>set B. sum_list row = 0)"
    unfolding msum_def using rows by (subst sum_list_nonneg_eq_0_iff) auto
  also have "\<dots> \<longleftrightarrow> (\<forall>row\<in>set B. \<forall>x\<in>set row. x = 0)"
    using nn by (auto simp: sum_list_nonneg_eq_0_iff)
  also have "\<dots> \<longleftrightarrow> (\<forall>i<n. \<forall>j<n. B ! i ! j = 0)"
    using sq unfolding square_def by (metis in_set_conv_nth)
  also have "\<dots> \<longleftrightarrow> r = {}"
  proof
    assume z: "\<forall>i<n. \<forall>j<n. B ! i ! j = 0"
    show "r = {}"
    proof (rule ccontr)
      assume "r \<noteq> {}"
      then obtain i j where ij: "(i, j) \<in> r" by auto
      with r have "i < n" "j < n" by auto
      with B ij have "1 \<le> B ! i ! j" by (simp add: supports_def)
      with z \<open>i < n\<close> \<open>j < n\<close> show False by simp
    qed
  next
    assume "r = {}"
    with B show "\<forall>i<n. \<forall>j<n. B ! i ! j = 0" by (simp add: supports_def)
  qed
  finally have "msum B = 0 \<longleftrightarrow> r = {}" .
  moreover have "0 \<le> msum B" unfolding msum_def using rows by (rule sum_list_nonneg)
  ultimately show ?thesis by auto
qed

lemma supports_sgn:
  assumes "supports n B r"
  shows "map (map sgn) B = mat_of n r"
proof (rule square_ext [of n])
  from assms have sq: "square n B" by (simp add: supports_def)
  show "square n (map (map sgn) B)" using sq by (rule map_map_square)
  show "square n (mat_of n r)" by (rule mat_of_square)
  fix i j assume ij: "i < n" "j < n"
  show "map (map sgn) B ! i ! j = mat_of n r ! i ! j"
  proof (cases "(i, j) \<in> r")
    case True
    with assms ij have "1 \<le> B ! i ! j" by (simp add: supports_def)
    then have "0 < B ! i ! j" by simp
    with True ij sq show ?thesis by (simp add: map_map_nth [of n] mat_of_nth)
  next
    case False
    with assms ij have "B ! i ! j = 0" by (simp add: supports_def)
    with False ij sq show ?thesis by (simp add: map_map_nth [of n] mat_of_nth)
  qed
qed

lemma path_relI: "b + m < length p \<Longrightarrow> (p ! (b + m), p ! b) \<in> path_rel p m"
  unfolding path_rel_def by blast

lemma path_relE:
  assumes "(i, j) \<in> path_rel p m"
  obtains b where "i = p ! (b + m)" "j = p ! b" "b + m < length p"
  using assms unfolding path_rel_def by blast

lemma path_rel_mem:
  assumes "distinct p" "a < length p" "b < length p"
  shows "(p ! a, p ! b) \<in> path_rel p m \<longleftrightarrow> a = b + m"
proof
  assume "(p ! a, p ! b) \<in> path_rel p m"
  then obtain b' where b': "p ! a = p ! (b' + m)" "p ! b = p ! b'" "b' + m < length p"
    by (rule path_relE)
  from b'(3) have lt: "b' < length p" by simp
  from b'(2) have "b = b'"
    by (simp only: nth_eq_iff_index_eq [OF assms(1) assms(3) lt])
  moreover from b'(1) have "a = b' + m"
    by (simp only: nth_eq_iff_index_eq [OF assms(1) assms(2) b'(3)])
  ultimately show "a = b + m" by simp
next
  assume "a = b + m"
  with assms(2) have "b + m < length p" by simp
  then have "(p ! (b + m), p ! b) \<in> path_rel p m" by (rule path_relI)
  with \<open>a = b + m\<close> show "(p ! a, p ! b) \<in> path_rel p m" by simp
qed

lemma path_rel_range:
  assumes "set p = {..<length p}"
  shows "path_rel p m \<subseteq> {..<length p} \<times> {..<length p}"
proof
  fix x assume x: "x \<in> path_rel p m"
  obtain i j where ij: "x = (i, j)" by (cases x)
  from x obtain b where b: "i = p ! (b + m)" "j = p ! b" "b + m < length p"
    unfolding ij by (rule path_relE)
  from b(3) have "b < length p" by simp
  with b have "i \<in> set p" "j \<in> set p" by simp_all
  then have "i < length p" "j < length p" by (simp_all only: assms lessThan_iff)
  then show "x \<in> {..<length p} \<times> {..<length p}" by (simp add: ij)
qed

lemma path_rel_comp:
  assumes "distinct p"
  shows "path_rel p m O path_rel p 1 = path_rel p (Suc m)"
proof (rule set_eqI)
  fix x :: "nat \<times> nat"
  obtain i j where x: "x = (i, j)" by (cases x)
  show "x \<in> path_rel p m O path_rel p 1 \<longleftrightarrow> x \<in> path_rel p (Suc m)"
  proof
    assume "x \<in> path_rel p m O path_rel p 1"
    then obtain k where k: "(i, k) \<in> path_rel p m" "(k, j) \<in> path_rel p 1"
      unfolding x by (rule relcompE) simp
    from k(1) obtain b' where b': "i = p ! (b' + m)" "k = p ! b'" "b' + m < length p"
      by (rule path_relE)
    from k(2) obtain b where b: "k = p ! (b + 1)" "j = p ! b" "b + 1 < length p"
      by (rule path_relE)
    from b'(3) have lt: "b' < length p" by simp
    from b'(2) b(1) have "p ! b' = p ! (b + 1)" by simp
    then have bb: "b' = b + 1"
      by (simp only: nth_eq_iff_index_eq [OF assms lt b(3)])
    with b'(3) have "b + Suc m < length p" by simp
    then have "(p ! (b + Suc m), p ! b) \<in> path_rel p (Suc m)" by (rule path_relI)
    moreover have "b' + m = b + Suc m" using bb by simp
    ultimately show "x \<in> path_rel p (Suc m)" by (simp add: x b' b)
  next
    assume "x \<in> path_rel p (Suc m)"
    then obtain b where b: "i = p ! (b + Suc m)" "j = p ! b" "b + Suc m < length p"
      unfolding x by (rule path_relE)
    from b(3) have "(b + 1) + m < length p" by simp
    then have "(p ! ((b + 1) + m), p ! (b + 1)) \<in> path_rel p m" by (rule path_relI)
    moreover have "(b + 1) + m = b + Suc m" by simp
    ultimately have 1: "(i, p ! (b + 1)) \<in> path_rel p m" by (simp only: b(1))
    from b(3) have "b + 1 < length p" by simp
    then have "(p ! (b + 1), p ! b) \<in> path_rel p 1" by (rule path_relI)
    then have 2: "(p ! (b + 1), j) \<in> path_rel p 1" by (simp only: b(2))
    from 1 2 show "x \<in> path_rel p m O path_rel p 1" unfolding x by (rule relcompI)
  qed
qed

lemma path_rel_empty: "path_rel p m = {} \<longleftrightarrow> \<not> m < length p"
proof
  assume e: "path_rel p m = {}"
  show "\<not> m < length p"
  proof
    assume "m < length p"
    then have "0 + m < length p" by simp
    then have "(p ! (0 + m), p ! 0) \<in> path_rel p m" by (rule path_relI)
    with e show False by simp
  qed
next
  assume n: "\<not> m < length p"
  show "path_rel p m = {}"
  proof (rule ccontr)
    assume "path_rel p m \<noteq> {}"
    then obtain x where x: "x \<in> path_rel p m" by blast
    obtain i j where ij: "x = (i, j)" by (cases x)
    from x obtain b where "b + m < length p" unfolding ij by (rule path_relE)
    with n show False by simp
  qed
qed

lemma path_graph_square: "square (length p) (path_graph p)"
  unfolding path_graph_def by (rule mat_of_square)

lemma path_graph_zero_one: "zero_one (path_graph p)"
  unfolding path_graph_def by (rule mat_of_zero_one)

lemma path_graph_rel:
  assumes "set p = {..<length p}"
  shows "rel_of (path_graph p) = path_rel p 1"
  unfolding path_graph_def rel_of_mat_of using path_rel_range [OF assms, of 1] by blast

lemma perm_nth_less: "set p = {..<length p} \<Longrightarrow> a < length p \<Longrightarrow> p ! a < length p"
  using nth_mem [of a p] by auto

lemma lengths_upto_zeros:
  assumes "set p = {..<length p}"
  shows "lengths_upto p 0 (zeros (length p))"
  unfolding lengths_upto_def
proof (intro conjI allI impI)
  show "square (length p) (zeros (length p))" by (simp add: square_def zeros_def)
  fix a b assume "a < length p" "b < length p"
  then have "p ! a < length p" "p ! b < length p" using assms by (simp_all add: perm_nth_less)
  then show "zeros (length p) ! (p ! a) ! (p ! b) = (if b < a \<and> a - b \<le> 0 then of_nat (a - b) else 0)"
    by (simp add: zeros_def)
qed

lemma lengths_upto_step:
  assumes perm: "distinct p" "set p = {..<length p}"
      and LP: "lengths_upto p (i - 1) LP" and i: "1 \<le> i"
  shows "lengths_upto p i
           (elementwise max LP (map (map (\<lambda>x. of_nat i * x)) (mat_of (length p) (path_rel p i))))"
  unfolding lengths_upto_def
proof (intro conjI allI impI)
  let ?n = "length p"
  let ?PL = "map (map (\<lambda>x. of_nat i * x)) (mat_of ?n (path_rel p i))"
  from LP have sq: "square ?n LP" by (simp add: lengths_upto_def)
  have sqP: "square ?n ?PL" by (intro map_map_square mat_of_square)
  show "square ?n (elementwise max LP ?PL)" using sq sqP by (rule elementwise_square)
  fix a b assume ab: "a < ?n" "b < ?n"
  then have pab: "p ! a < ?n" "p ! b < ?n" using perm(2) by (simp_all add: perm_nth_less)
  have old: "LP ! (p ! a) ! (p ! b) = (if b < a \<and> a - b \<le> i - 1 then of_nat (a - b) else 0)"
    using LP ab by (simp add: lengths_upto_def)
  have new: "?PL ! (p ! a) ! (p ! b) = (if a = b + i then of_nat i else 0)"
    using pab by (simp add: map_map_nth [of ?n] mat_of_square mat_of_nth
        path_rel_mem [OF perm(1) ab])
  have "elementwise max LP ?PL ! (p ! a) ! (p ! b) =
        max (LP ! (p ! a) ! (p ! b)) (?PL ! (p ! a) ! (p ! b))"
    by (rule elementwise_nth [OF sq sqP pab])
  also have "\<dots> = (if b < a \<and> a - b \<le> i then of_nat (a - b) else 0)"
    unfolding old new using i by (auto simp: max_def)
  finally show "elementwise max LP ?PL ! (p ! a) ! (p ! b) =
                (if b < a \<and> a - b \<le> i then of_nat (a - b) else 0)" .
qed

lemma lengths_upto_full:
  assumes "lengths_upto p m LP" "length p \<le> Suc m" "length p \<le> Suc m'"
  shows "lengths_upto p m' LP"
  using assms unfolding lengths_upto_def by auto

lemma lpm_loops_path_graph:
  assumes perm: "distinct p" "set p = {..<length p}"
      and i: "1 \<le> i" "i < k"
      and B: "supports (length p) B (path_rel p i)"
      and LP: "lengths_upto p (i - 1) LP"
  shows "\<exists>LP'. lpm_loop (path_graph p) (of_nat k) i B LP = Some LP' \<and>
               dagsep_lpm_loop (path_graph p) (Some (of_nat k)) i B LP = Some LP' \<and>
               lengths_upto p (k - 1) LP'"
  using i B LP
proof (induction "k - i" arbitrary: i B LP)
  case 0
  then show ?case by simp
next
  case (Suc d)
  let ?n = "length p"
  let ?A = "path_graph p"
  let ?LP1 = "elementwise max LP (map (map (\<lambda>x. of_nat i * x)) (map (map sgn) B))"
  have pos: "0 < msum B \<longleftrightarrow> i < ?n"
    using supports_msum [OF Suc.prems(3) path_rel_range [OF perm(2)]]
    by (simp add: path_rel_empty)
  show ?case
  proof (cases "i < ?n")
    case False
    with pos have z: "\<not> 0 < msum B" by simp
    have 1: "lpm_loop ?A (of_nat k) i B LP = Some LP"
      by (subst lpm_loop.simps) (simp add: z)
    have 2: "dagsep_lpm_loop ?A (Some (of_nat k)) i B LP = Some LP"
      by (subst dagsep_lpm_loop.simps) (simp add: z)
    have "lengths_upto p (k - 1) LP"
      by (rule lengths_upto_full [OF Suc.prems(4)]) (use False Suc.prems(1,2) in simp_all)
    with 1 2 show ?thesis by simp
  next
    case True
    with pos have nz: "0 < msum B" by simp
    have sg: "map (map sgn) B = mat_of ?n (path_rel p i)"
      by (rule supports_sgn [OF Suc.prems(3)])
    have LP1: "lengths_upto p i ?LP1"
      unfolding sg by (rule lengths_upto_step [OF perm Suc.prems(4,1)])
    have "supports ?n (dot B ?A) (path_rel p i O rel_of ?A)"
      by (rule supports_dot [OF Suc.prems(3) path_graph_square path_graph_zero_one])
    then have B1: "supports ?n (dot B ?A) (path_rel p (Suc i))"
      by (simp only: path_graph_rel [OF perm(2)] path_rel_comp [OF perm(1)])
    have c1: "(of_nat (i + 1) = (of_nat k :: rat)) = (Suc i = k)"
      by (simp only: of_nat_eq_iff Suc_eq_plus1)
    have k0: "(of_nat k :: rat) \<noteq> 0" using Suc.prems(1,2) by simp
    have c2: "(case Some (of_nat k :: rat) of None \<Rightarrow> False
               | Some d \<Rightarrow> d \<noteq> 0 \<and> of_nat (i + 1) = d) = (Suc i = k)"
      by (simp only: option.case c1 k0 not_False_eq_True simp_thms)
    have u1: "lpm_loop ?A (of_nat k) i B LP =
              (if Suc i = k then Some ?LP1
               else lpm_loop ?A (of_nat k) (i + 1) (dot B ?A) ?LP1)"
      by (subst lpm_loop.simps) (simp only: nz if_True Let_def c1)
    have u2: "dagsep_lpm_loop ?A (Some (of_nat k)) i B LP =
              (if Suc i = k then Some ?LP1
               else dagsep_lpm_loop ?A (Some (of_nat k)) (i + 1) (dot B ?A) ?LP1)"
      by (subst dagsep_lpm_loop.simps) (simp only: nz if_True Let_def c2)
    show ?thesis
    proof (cases "Suc i = k")
      case True
      have 1: "lpm_loop ?A (of_nat k) i B LP = Some ?LP1"
        unfolding u1 using True by simp
      have 2: "dagsep_lpm_loop ?A (Some (of_nat k)) i B LP = Some ?LP1"
        unfolding u2 using True by simp
      from LP1 True have "lengths_upto p (k - 1) ?LP1" by auto
      with 1 2 show ?thesis by simp
    next
      case False
      with Suc.prems(2) have lt: "Suc i < k" by simp
      have 1: "lpm_loop ?A (of_nat k) i B LP = lpm_loop ?A (of_nat k) (Suc i) (dot B ?A) ?LP1"
        unfolding u1 using False by simp
      have 2: "dagsep_lpm_loop ?A (Some (of_nat k)) i B LP =
               dagsep_lpm_loop ?A (Some (of_nat k)) (Suc i) (dot B ?A) ?LP1"
        unfolding u2 using False by simp
      have d: "d = k - Suc i" using Suc.hyps(2) by simp
      have "\<exists>LP'. lpm_loop ?A (of_nat k) (Suc i) (dot B ?A) ?LP1 = Some LP' \<and>
               dagsep_lpm_loop ?A (Some (of_nat k)) (Suc i) (dot B ?A) ?LP1 = Some LP' \<and>
               lengths_upto p (k - 1) LP'"
        by (rule Suc.hyps(1) [OF d _ lt B1]) (use LP1 in simp_all)
      then show ?thesis by (simp only: 1 2)
    qed
  qed
qed

text \<open>
  C2 (as amended). For the adjacency matrix of a path graph, with its nodes labelled in any
  order, and a cutoff \<open>k \<ge> 2\<close>, both versions of \<open>longest_path_matrix(A, dmax=k)\<close> return a
  matrix in which every entry whose true longest-path length is below \<open>k\<close> equals that
  length and every entry whose true length exceeds \<open>k\<close> equals 0.
\<close>

theorem cutoff_on_path_graph:
  assumes "distinct p" "set p = {..<length p}" "2 \<le> k"
  shows "\<exists>LP. longest_path_matrix (path_graph p) (Some (of_nat k)) = Some LP \<and>
              dagsep_longest_path_matrix (path_graph p) (Some (of_nat k)) = Some LP \<and>
              (\<forall>a<length p. \<forall>b<length p.
                 (a - b < k \<longrightarrow> LP ! (p ! a) ! (p ! b) = of_nat (a - b)) \<and>
                 (k < a - b \<longrightarrow> LP ! (p ! a) ! (p ! b) = 0))"
proof -
  let ?n = "length p"
  have len: "length (path_graph p) = ?n" using path_graph_square [of p] by (simp add: square_def)
  have B: "supports ?n (path_graph p) (path_rel p 1)"
    using supports_rel_of [OF path_graph_square path_graph_zero_one, of p]
    by (simp add: path_graph_rel [OF assms(2)])
  have LP0: "lengths_upto p (1 - 1) (zeros ?n)"
    using lengths_upto_zeros [OF assms(2)] by simp
  from lpm_loops_path_graph [OF assms(1,2) _ _ B LP0, of k] assms(3)
  obtain LP where LP: "lpm_loop (path_graph p) (of_nat k) 1 (path_graph p) (zeros ?n) = Some LP"
    "dagsep_lpm_loop (path_graph p) (Some (of_nat k)) 1 (path_graph p) (zeros ?n) = Some LP"
    "lengths_upto p (k - 1) LP" by auto
  have "(a - b < k \<longrightarrow> LP ! (p ! a) ! (p ! b) = of_nat (a - b)) \<and>
        (k < a - b \<longrightarrow> LP ! (p ! a) ! (p ! b) = 0)" if "a < ?n" "b < ?n" for a b
    using LP(3) that assms(3) unfolding lengths_upto_def by auto
  with LP(1,2) show ?thesis
    by (auto simp: longest_path_matrix_def dagsep_longest_path_matrix_def len)
qed

text \<open>
  Without a cutoff the loop returns the true lengths \<open>a - b\<close> of the path graph.
\<close>

lemma uncut_path_graph_loop:
  assumes perm: "distinct p" "set p = {..<length p}"
      and i: "1 \<le> i"
      and B: "supports (length p) B (path_rel p i)"
      and LP: "lengths_upto p (i - 1) LP"
  shows "\<exists>LP'. dagsep_lpm_loop (path_graph p) None i B LP = Some LP' \<and>
               lengths_upto p (length p - 1) LP'"
  using i B LP
proof (induction "length p - i" arbitrary: i B LP rule: less_induct)
  case less
  let ?n = "length p"
  let ?A = "path_graph p"
  let ?LP1 = "elementwise max LP (map (map (\<lambda>x. of_nat i * x)) (map (map sgn) B))"
  have pos: "0 < msum B \<longleftrightarrow> i < ?n"
    using supports_msum [OF less.prems(2) path_rel_range [OF perm(2)]]
    by (simp add: path_rel_empty)
  show ?case
  proof (cases "i < ?n")
    case False
    with pos have z: "\<not> 0 < msum B" by simp
    have 1: "dagsep_lpm_loop ?A None i B LP = Some LP"
      by (subst dagsep_lpm_loop.simps) (simp add: z)
    have "lengths_upto p (?n - 1) LP"
      by (rule lengths_upto_full [OF less.prems(3)]) (use False less.prems(1) in simp_all)
    with 1 show ?thesis by simp
  next
    case True
    with pos have nz: "0 < msum B" by simp
    have sg: "map (map sgn) B = mat_of ?n (path_rel p i)"
      by (rule supports_sgn [OF less.prems(2)])
    have LP1: "lengths_upto p i ?LP1"
      unfolding sg by (rule lengths_upto_step [OF perm less.prems(3,1)])
    have "supports ?n (dot B ?A) (path_rel p i O rel_of ?A)"
      by (rule supports_dot [OF less.prems(2) path_graph_square path_graph_zero_one])
    then have B1: "supports ?n (dot B ?A) (path_rel p (Suc i))"
      by (simp only: path_graph_rel [OF perm(2)] path_rel_comp [OF perm(1)])
    have u: "dagsep_lpm_loop ?A None i B LP = dagsep_lpm_loop ?A None (i + 1) (dot B ?A) ?LP1"
      by (subst dagsep_lpm_loop.simps) (simp only: nz if_True Let_def option.case if_False)
    have m: "?n - Suc i < ?n - i" using True by simp
    have "\<exists>LP'. dagsep_lpm_loop ?A None (Suc i) (dot B ?A) ?LP1 = Some LP' \<and>
               lengths_upto p (?n - 1) LP'"
      by (rule less.hyps [OF m _ B1]) (use LP1 in simp_all)
    then show ?thesis by (simp only: u Suc_eq_plus1)
  qed
qed

lemma uncut_path_graph_lengths:
  assumes "distinct p" "set p = {..<length p}"
  shows "\<exists>LP. dagsep_longest_path_matrix (path_graph p) None = Some LP \<and>
              (\<forall>a<length p. \<forall>b<length p. LP ! (p ! a) ! (p ! b) = of_nat (a - b))"
proof -
  let ?n = "length p"
  have len: "length (path_graph p) = ?n" using path_graph_square [of p] by (simp add: square_def)
  have B: "supports ?n (path_graph p) (path_rel p 1)"
    using supports_rel_of [OF path_graph_square path_graph_zero_one, of p]
    by (simp add: path_graph_rel [OF assms(2)])
  have LP0: "lengths_upto p (1 - 1) (zeros ?n)"
    using lengths_upto_zeros [OF assms(2)] by simp
  from uncut_path_graph_loop [OF assms le_refl B LP0]
  obtain LP where LP: "dagsep_lpm_loop (path_graph p) None 1 (path_graph p) (zeros ?n) = Some LP"
    "lengths_upto p (?n - 1) LP" by auto
  have "LP ! (p ! a) ! (p ! b) = of_nat (a - b)" if "a < ?n" "b < ?n" for a b
    using LP(2) that unfolding lengths_upto_def by auto
  with LP(1) show ?thesis
    by (auto simp: dagsep_longest_path_matrix_def len)
qed

lemma upt_four: "[0..<4] = [0, Suc 0, Suc (Suc 0), Suc (Suc (Suc 0))]"
  by (simp add: upt_rec eval_nat_numeral)

lemma less_four: "i < 4 \<longleftrightarrow> i = 0 \<or> i = Suc 0 \<or> i = Suc (Suc 0) \<or> i = Suc (Suc (Suc 0))"
  by (auto simp: eval_nat_numeral less_Suc_eq)

lemma path_graph_four:
  "path_graph [0..<4] = [[0, 0, 0, 0], [1, 0, 0, 0], [0, 1, 0, 0], [0, 0, 1, 0]]"
proof (rule square_ext [of 4])
  have l4: "length [0..<4] = 4" by simp
  show "square 4 (path_graph [0..<4])"
    using path_graph_square [of "[0..<4]"] by (simp only: l4)
  show "square 4 [[0, 0, 0, 0], [1, 0, 0, 0], [0, 1, 0, 0], [0, 0, 1, 0]]"
    by (simp add: square_def)
  fix i j :: nat assume ij: "i < 4" "j < 4"
  have id: "[0..<4] ! i = i" "[0..<4] ! j = j"
    using ij by simp_all
  have "([0..<4] ! i, [0..<4] ! j) \<in> path_rel [0..<4] 1 \<longleftrightarrow> i = j + 1"
    by (rule path_rel_mem) (use ij in simp_all)
  then have "(i, j) \<in> path_rel [0..<4] 1 \<longleftrightarrow> i = j + 1"
    by (simp only: id)
  then have "mat_of 4 (path_rel [0..<4] 1) ! i ! j = (if i = j + 1 then 1 else 0)"
    using ij by (simp only: mat_of_nth)
  then have "path_graph [0..<4] ! i ! j = (if i = j + 1 then 1 else 0)"
    by (simp only: path_graph_def l4)
  also have "\<dots> = [[0, 0, 0, 0], [1, 0, 0, 0], [0, 1, 0, 0], [0, 0, 1, 0]] ! i ! j"
    using ij by (auto simp: less_four)
  finally show "path_graph [0..<4] ! i ! j =
                [[0, 0, 0, 0], [1, 0, 0, 0], [0, 1, 0, 0], [0, 0, 1, 0]] ! i ! j" .
qed

lemma lpm_four_cut_two:
  "longest_path_matrix [[0, 0, 0, 0], [1, 0, 0, 0], [0, 1, 0, 0], [0, 0, 1, 0]] (Some 2) =
   Some [[0, 0, 0, 0], [1, 0, 0, 0], [0, 1, 0, 0], [0, 0, 1, 0]]"
  unfolding longest_path_matrix_def
  apply (subst lpm_loop.simps)
  apply (simp add: msum_def dot_def elementwise_def zeros_def upt_four eval_nat_numeral)
  done

theorem cutoff_on_path_graph_witness:
  "\<exists>LP. longest_path_matrix (path_graph [2, 0, 3, 1]) (Some (of_nat 2)) = Some LP \<and>
        dagsep_longest_path_matrix (path_graph [2, 0, 3, 1]) (Some (of_nat 2)) = Some LP \<and>
        (\<forall>a<length [2, 0, 3, 1 :: nat]. \<forall>b<length [2, 0, 3, 1 :: nat].
           (a - b < 2 \<longrightarrow> LP ! ([2, 0, 3, 1] ! a) ! ([2, 0, 3, 1] ! b) = of_nat (a - b)) \<and>
           (2 < a - b \<longrightarrow> LP ! ([2, 0, 3, 1] ! a) ! ([2, 0, 3, 1] ! b) = 0))"
proof -
  have d: "distinct [2, 0, 3, 1 :: nat]" by simp
  have s: "set [2, 0, 3, 1 :: nat] = {..<length [2, 0, 3, 1 :: nat]}"
    by (auto simp: less_four)
  have k: "(2::nat) \<le> 2" by simp
  show ?thesis by (rule cutoff_on_path_graph [OF d s k])
qed

text \<open>
  C2 (as stated) fails: on the path graph \<open>0 \<rightarrow> 1 \<rightarrow> 2 \<rightarrow> 3\<close> (diameter 3) and \<open>dmax = 2\<close> the
  entry \<open>LP[3,0]\<close>, of true length 3, is 0 and not 2; the entry \<open>LP[2,0]\<close>, of true length 2,
  is 0 as well.
\<close>

theorem cutoff_on_path_graph_counterexample:
  "path_graph [0..<4] = [[0, 0, 0, 0], [1, 0, 0, 0], [0, 1, 0, 0], [0, 0, 1, 0]] \<and>
   longest_path_matrix [[0, 0, 0, 0], [1, 0, 0, 0], [0, 1, 0, 0], [0, 0, 1, 0]] (Some 2) =
     Some [[0, 0, 0, 0], [1, 0, 0, 0], [0, 1, 0, 0], [0, 0, 1, 0]] \<and>
   ([[0, 0, 0, 0], [1, 0, 0, 0], [0, 1, 0, 0], [0, 0, 1, 0]] :: matrix) ! 3 ! 0 \<noteq> 2 \<and>
   ([[0, 0, 0, 0], [1, 0, 0, 0], [0, 1, 0, 0], [0, 0, 1, 0]] :: matrix) ! 2 ! 0 \<noteq> 2"
proof (intro conjI)
  show "path_graph [0..<4] = [[0, 0, 0, 0], [1, 0, 0, 0], [0, 1, 0, 0], [0, 0, 1, 0]]"
    by (rule path_graph_four)
  show "longest_path_matrix [[0, 0, 0, 0], [1, 0, 0, 0], [0, 1, 0, 0], [0, 0, 1, 0]] (Some 2) =
     Some [[0, 0, 0, 0], [1, 0, 0, 0], [0, 1, 0, 0], [0, 0, 1, 0]]"
    by (rule lpm_four_cut_two)
qed simp_all

end
